theory Spec2Isabelle
  imports Main "HOL-Library.Sublist"
begin

unbundle bit_operations_syntax

section \<open>Exceptions of the program\<close>

text \<open>
  Every exception the modelled functions can raise is a value; a function that can raise
  returns \<open>error + 'a\<close>, with \<open>Inl\<close> the raised exception. The Python built-ins
  carry no message in the model; the three exception classes that
  \<open>geothimagery/GeoportalTH_main.py\<close> declares carry the message they are raised with.
\<close>

datatype error =
    ValueError
  | TypeError
  | IndexError
  | UnboundLocalError
  | FunctionalityNotImplemented string
  | MissingAerialCoverage string
  | AreaOutOfBounds string

section \<open>Python built-ins used by the program\<close>

subsection \<open>\<open>str(int)\<close> and \<open>int(str)\<close>\<close>

text \<open>
  Python's integers are unbounded: they are \<open>int\<close>. \<open>str(i)\<close> prints a minus sign for a
  negative number and then the decimal digits without leading zeros. \<open>int(s)\<close> skips
  surrounding blanks, reads an optional sign and then needs a non-empty run of decimal
  digits; anything else is a \<open>ValueError\<close>. Strings are byte lists here, so the model
  covers ASCII text (the grid's tile names are ASCII); the interpreter's configurable bound
  on the number of digits of a conversion is not modelled.
\<close>

definition digit_char :: "nat \<Rightarrow> char" where
  "digit_char d = ''0123456789'' ! d"

function digits :: "nat \<Rightarrow> string" where
  "digits n = (if n < 10 then [digit_char n] else digits (n div 10) @ [digit_char (n mod 10)])"
  by pat_completeness auto
termination
  by (relation "measure (\<lambda>n. n)") auto

declare digits.simps [simp del]

definition py_str :: "int \<Rightarrow> string" where
  "py_str i = (if i < 0 then CHR ''-'' # digits (nat (- i)) else digits (nat i))"

definition is_digit :: "char \<Rightarrow> bool" where
  "is_digit c = (48 \<le> (of_char c :: nat) \<and> (of_char c :: nat) \<le> 57)"

definition digit_val :: "char \<Rightarrow> nat" where
  "digit_val c = of_char c - 48"

text \<open>
  The blanks \<open>int(s)\<close> skips at both ends of an ASCII string: tab, line feed, vertical
  tab, form feed, carriage return (bytes 9 to 13) and the space (byte 32). The separator
  bytes 28 to 31 are not among them: \<open>int('4\x1f')\<close> raises \<open>ValueError\<close>.
\<close>

definition is_space :: "char \<Rightarrow> bool" where
  "is_space c = ((9 \<le> (of_char c :: nat) \<and> (of_char c :: nat) \<le> 13) \<or> (of_char c :: nat) = 32)"

definition strip :: "string \<Rightarrow> string" where
  "strip s = rev (dropWhile is_space (rev (dropWhile is_space s)))"

definition digits_val :: "string \<Rightarrow> nat" where
  "digits_val ds = foldl (\<lambda>acc c. 10 * acc + digit_val c) 0 ds"

definition py_int :: "string \<Rightarrow> error + int" where
  "py_int s =
     (let t = strip s;
          neg = (t \<noteq> [] \<and> hd t = CHR ''-'');
          ds = (if t \<noteq> [] \<and> (hd t = CHR ''-'' \<or> hd t = CHR ''+'') then tl t else t)
      in if ds = [] \<or> \<not> list_all is_digit ds then Inl ValueError
         else Inr (if neg then - int (digits_val ds) else int (digits_val ds)))"

subsection \<open>\<open>str.split(sep)\<close> with a one-character separator\<close>

fun split_on :: "char \<Rightarrow> string \<Rightarrow> string list" where
  "split_on sep [] = [[]]"
| "split_on sep (c # cs) =
     (if c = sep then [] # split_on sep cs
      else (case split_on sep cs of
              [] \<Rightarrow> [[c]]
            | p # ps \<Rightarrow> (c # p) # ps))"

subsection \<open>\<open>str.upper()\<close>, \<open>str.endswith\<close> and \<open>os.path.join\<close>\<close>

definition upper_char :: "char \<Rightarrow> char" where
  "upper_char c =
     (if 97 \<le> (of_char c :: nat) \<and> (of_char c :: nat) \<le> 122
      then char_of ((of_char c :: nat) - 32) else c)"

definition upper :: "string \<Rightarrow> string" where
  "upper s = map upper_char s"

definition endswith :: "string \<Rightarrow> string \<Rightarrow> bool" where
  "endswith s suf = (length suf \<le> length s \<and> drop (length s - length suf) s = suf)"

text \<open>\<open>os.path.join(a, b)\<close> on a POSIX system, for two components.\<close>

definition join :: "string \<Rightarrow> string \<Rightarrow> string" where
  "join a b =
     (if b \<noteq> [] \<and> hd b = CHR ''/'' then b
      else if a = [] \<or> last a = CHR ''/'' then a @ b
      else a @ CHR ''/'' # b)"

subsection \<open>\<open>range(start, stop, step)\<close>\<close>

function range_up :: "int \<Rightarrow> int \<Rightarrow> int \<Rightarrow> int list" where
  "range_up cur stop step =
     (if 0 < step \<and> cur < stop then cur # range_up (cur + step) stop step else [])"
  by pat_completeness auto
termination
  by (relation "measure (\<lambda>(cur, stop, step). nat (stop - cur))") auto

declare range_up.simps [simp del]

function range_down :: "int \<Rightarrow> int \<Rightarrow> int \<Rightarrow> int list" where
  "range_down cur stop step =
     (if step < 0 \<and> stop < cur then cur # range_down (cur + step) stop step else [])"
  by pat_completeness auto
termination
  by (relation "measure (\<lambda>(cur, stop, step). nat (cur - stop))") auto

declare range_down.simps [simp del]

definition py_range :: "int \<Rightarrow> int \<Rightarrow> int \<Rightarrow> error + int list" where
  "py_range start stop step =
     (if step = 0 then Inl ValueError
      else if 0 < step then Inr (range_up start stop step)
      else Inr (range_down start stop step))"

section \<open>Grid vintage selector: \<open>dem_year_func\<close>\<close>

definition url_2010_2013 :: string where
  "url_2010_2013 = ''https://geoportal.geoportal-th.de/hoehendaten/Uebersichten/Stand_2010-2013.zip''"

definition url_2014_2019 :: string where
  "url_2014_2019 = ''https://geoportal.geoportal-th.de/hoehendaten/Uebersichten/Stand_2014-2019.zip''"

definition url_2020_2025 :: string where
  "url_2020_2025 = ''https://geoportal.geoportal-th.de/hoehendaten/Uebersichten/Stand_2020-2025.zip''"

text \<open>
  \<open>dem_year_func(year)\<close> of \<open>geothimagery/GeoportalTH_main.py\<close>: an \<open>if\<close>/\<open>elif\<close> chain
  whose first test is \<open>year <= 2013 and year >= 2010\<close>, whose second is \<open>year <= 2019\<close>,
  whose third is \<open>year <= 2025\<close>, and whose \<open>else\<close> raises \<open>ValueError\<close>. The result is
  the pair \<open>(request, dem_year)\<close>.
\<close>

definition dem_year_func :: "int \<Rightarrow> error + (string \<times> string)" where
  "dem_year_func year =
     (if year \<le> 2013 \<and> year \<ge> 2010 then Inr (url_2010_2013, ''2010-2013'')
      else if year \<le> 2019 then Inr (url_2014_2019, ''2014-2019'')
      else if year \<le> 2025 then Inr (url_2020_2025, ''2020-2025'')
      else Inl ValueError)"

section \<open>The tile-ID resolver of \<open>op_download\<close>\<close>

subsection \<open>Grouping correction for the years up to 2018\<close>

text \<open>
  \<open>tile_x, tile_y = tile.split("_")\<close> followed by \<open>int(tile_x), int(tile_y)\<close>: the
  unpacking needs exactly two parts, and each part must read as an integer.
\<close>

definition split_tile :: "string \<Rightarrow> error + (int \<times> int)" where
  "split_tile tile =
     (case split_on CHR ''_'' tile of
        [a, b] \<Rightarrow>
          (case py_int a of
             Inl e \<Rightarrow> Inl e
           | Inr x \<Rightarrow> (case py_int b of Inl e \<Rightarrow> Inl e | Inr y \<Rightarrow> Inr (x, y)))
      | _ \<Rightarrow> Inl ValueError)"

text \<open>
  The parity tests of the loop body and the name \<open>new_tile = tile_x + "_" + tile_y\<close> it
  builds; \<open>Inr None\<close> is the \<open>continue\<close> of the last \<open>else\<close>. Python's \<open>x & 1\<close> on an
  unbounded integer is the bitwise \<open>AND\<close> of \<open>int\<close>. If neither inner test held, the two
  coordinates would still be integers and the concatenation would raise \<open>TypeError\<close>.
\<close>

definition correct_tile :: "int \<Rightarrow> int \<Rightarrow> error + string option" where
  "correct_tile tile_x tile_y =
     (if (tile_x AND 1) + (tile_y AND 1) = 1 then
        (if tile_x AND 1 = 1 then Inr (Some (py_str (tile_x - 1) @ ''_'' @ py_str tile_y))
         else if tile_y AND 1 = 1 then Inr (Some (py_str tile_x @ ''_'' @ py_str (tile_y - 1)))
         else Inl TypeError)
      else if (tile_x AND 1) + (tile_y AND 1) = 2 then
        Inr (Some (py_str (tile_x - 1) @ ''_'' @ py_str (tile_y - 1)))
      else Inr None)"

text \<open>
  The loop \<open>for tile in tiles_check\<close>: the first argument is what is left of the copy
  \<open>tiles_check\<close>, the second the caller's list \<open>tiles\<close>, which the loop changes in place.
  The result is the list as the loop leaves it and the exception, if one was raised.
  \<open>tiles.remove(tile)\<close> deletes the first occurrence and raises \<open>ValueError\<close> when there
  is none; the new name is appended only if the list does not hold it yet.
\<close>

fun correct_loop :: "string list \<Rightarrow> string list \<Rightarrow> string list \<times> error option" where
  "correct_loop [] tiles = (tiles, None)"
| "correct_loop (tile # tiles_check) tiles =
     (case split_tile tile of
        Inl e \<Rightarrow> (tiles, Some e)
      | Inr (tile_x, tile_y) \<Rightarrow>
          (case correct_tile tile_x tile_y of
             Inl e \<Rightarrow> (tiles, Some e)
           | Inr None \<Rightarrow> correct_loop tiles_check tiles
           | Inr (Some new_tile) \<Rightarrow>
               (if tile \<in> set tiles then
                  (let tiles1 = remove1 tile tiles
                   in correct_loop tiles_check
                        (if new_tile \<in> set tiles1 then tiles1 else tiles1 @ [new_tile]))
                else (tiles, Some ValueError))))"

text \<open>
  The \<open>if year <= 2018\<close> block as a whole: \<open>tiles_check = tiles.copy()\<close> and the loop
  over it.
\<close>

definition correction :: "int \<Rightarrow> string list \<Rightarrow> string list \<times> error option" where
  "correction year tiles = (if year \<le> 2018 then correct_loop tiles tiles else (tiles, None))"

subsection \<open>Lookup of the IDs\<close>

text \<open>A row of the lookup table, whose header is \<open>id,year,tilename\<close>.\<close>

record row =
  row_id :: int
  row_year :: int
  row_tilename :: string

definition missing_msg :: string where
  "missing_msg = ''There are no matching ortophoto tiles in this year.''"

text \<open>
  The loop \<open>for tile in tiles\<close> that fills \<open>idlist\<close>: \<open>tile_match\<close> are the rows of the
  year-filtered table with that tile name, an empty match raises, and otherwise the first
  column of the first matching row is appended.
\<close>

fun find_ids :: "row list \<Rightarrow> string list \<Rightarrow> int list \<Rightarrow> error + int list" where
  "find_ids lookup [] idlist = Inr idlist"
| "find_ids lookup (tile # tiles) idlist =
     (case filter (\<lambda>r. row_tilename r = tile) lookup of
        [] \<Rightarrow> Inl (MissingAerialCoverage missing_msg)
      | r # rs \<Rightarrow> find_ids lookup tiles (idlist @ [row_id r]))"

text \<open>
  \<open>op_download\<close> up to the end of the ID loop. The first component of the result is the
  caller's \<open>tiles\<close> list after the call (the list is changed in place, so the caller sees
  it whether the call returns or raises); the second is \<open>idlist\<close> or the exception.
\<close>

definition op_resolve :: "row list \<Rightarrow> string list \<Rightarrow> int \<Rightarrow> string list \<times> (error + int list)" where
  "op_resolve table tiles year =
     (let lookup = filter (\<lambda>r. row_year r = year) table
      in case correction year tiles of
           (tiles', Some e) \<Rightarrow> (tiles', Inl e)
         | (tiles', None) \<Rightarrow> (tiles', find_ids lookup tiles' []))"

text \<open>
  Two notions derived from the loop body, used to state what the correction computes:
  whether the body replaces a name, and the name it puts in its place (the name itself
  where the body leaves it alone).
\<close>

definition needs_correction :: "string \<Rightarrow> bool" where
  "needs_correction tile =
     (case split_tile tile of
        Inl e \<Rightarrow> False
      | Inr (x, y) \<Rightarrow> (case correct_tile x y of Inr (Some n) \<Rightarrow> True | _ \<Rightarrow> False))"

definition anchor :: "string \<Rightarrow> string" where
  "anchor tile =
     (case split_tile tile of
        Inl e \<Rightarrow> tile
      | Inr (x, y) \<Rightarrow> (case correct_tile x y of Inr (Some n) \<Rightarrow> n | _ \<Rightarrow> tile))"

definition parses :: "string \<Rightarrow> bool" where
  "parses tile = (case split_tile tile of Inl e \<Rightarrow> False | Inr p \<Rightarrow> True)"

definition expected_count :: "string list \<Rightarrow> string list \<Rightarrow> string \<Rightarrow> nat" where
  "expected_count rest L n =
     (if needs_correction n then 0
      else if n \<in> set L then count_list L n
      else if n \<in> anchor ` {t \<in> set rest. needs_correction t} then 1 else 0)"

definition first_match :: "row list \<Rightarrow> string \<Rightarrow> int option" where
  "first_match lookup tile =
     (case filter (\<lambda>r. row_tilename r = tile) lookup of [] \<Rightarrow> None | r # rs \<Rightarrow> Some (row_id r))"

section \<open>Files, downloads and the pipeline\<close>

text \<open>
  What the program does to its surroundings is kept in a \<open>world\<close>: the regular files on
  disk, the URLs fetched with \<open>requests.get\<close> in the order of the calls, and the paths named
  in the warnings of the cleanup. Directories are not tracked (\<open>os.mkdir\<close> has no effect
  here). Whatever the program reads from outside is a field of \<open>env\<close>: the member names of
  the archive stored at a path, the name attribute of the rows of
  \<open>gpd.overlay(polygon, grid, how="intersection")\<close> for a shapefile and a vintage, and the
  rows \<open>pd.read_csv\<close> reads from the lookup file. Every member of an archive is taken to be
  a regular file, unpacked at the path \<open>zip_ref.namelist()\<close> gives it below the target
  directory. The raster library is not modelled beyond the files it writes.
\<close>

record world =
  files :: "string set"
  requests :: "string list"
  warnings :: "string list"

record env =
  namelist :: "string \<Rightarrow> string list"
  overlay :: "string \<Rightarrow> string \<Rightarrow> string list"
  read_csv :: "string \<Rightarrow> row list"

fun bindw :: "world \<times> (error + 'a) \<Rightarrow> (world \<Rightarrow> 'a \<Rightarrow> world \<times> (error + 'b)) \<Rightarrow> world \<times> (error + 'b)" where
  "bindw (w, Inl e) f = (w, Inl e)"
| "bindw (w, Inr x) f = f w x"

definition http_get_to :: "string \<Rightarrow> string \<Rightarrow> world \<Rightarrow> world" where
  "http_get_to url path w = w\<lparr>files := insert path (files w), requests := requests w @ [url]\<rparr>"

definition extract_members :: "string \<Rightarrow> string list \<Rightarrow> world \<Rightarrow> world" where
  "extract_members dir members w = w\<lparr>files := files w \<union> set (map (join dir) members)\<rparr>"

subsection \<open>\<open>tile_grid_download\<close> and \<open>intersection\<close>\<close>

definition tile_grid_download :: "env \<Rightarrow> string \<Rightarrow> string \<Rightarrow> string \<Rightarrow> world \<Rightarrow> world" where
  "tile_grid_download E data_dir dem_year request w =
     (let target_dir = join data_dir (''Stand_'' @ dem_year);
          grid_file = join target_dir (''Stand_'' @ dem_year @ ''.zip'');
          w1 = (if grid_file \<in> files w then w else http_get_to request grid_file w)
      in if dem_year = ''2020-2025''
         then extract_members data_dir (drop 1 (namelist E grid_file)) w1
         else extract_members target_dir (namelist E grid_file) w1)"

definition area_msg :: string where
  "area_msg = ''Your area of interest seems to not lie within Thuringian state borders or adequate coverage is not available for chosen DEMs.''"

text \<open>
  \<open>intersection\<close>, given the name column of the overlay. An unknown vintage raises before
  the grid is read; an empty overlay raises \<open>AreaOutOfBounds\<close>; for the earliest vintage
  every name is cut to \<open>tile[2:end]\<close>, with \<open>end\<close> the length of the first name.
\<close>

definition intersection :: "string list \<Rightarrow> string \<Rightarrow> error + string list" where
  "intersection intersecting dem_year =
     (if dem_year \<noteq> ''2010-2013'' \<and> dem_year \<noteq> ''2014-2019'' \<and> dem_year \<noteq> ''2020-2025''
      then Inl ValueError
      else (case intersecting of
              [] \<Rightarrow> Inl (AreaOutOfBounds area_msg)
            | first # others \<Rightarrow>
                if dem_year = ''2010-2013''
                then Inr (map (\<lambda>tile. drop 2 (take (length first) tile)) intersecting)
                else Inr intersecting))"

subsection \<open>\<open>dem_download\<close>\<close>

text \<open>
  The request URL of one tile. \<open>indicator_number\<close> is assigned only for the three known
  vintages and \<open>request\<close> only for the formats \<open>dgm\<close> and \<open>dom\<close>; \<open>Inr None\<close> is a
  \<open>request\<close> left unassigned, which raises when it is used.
\<close>

definition dem_request :: "string \<Rightarrow> string \<Rightarrow> string \<Rightarrow> error + string option" where
  "dem_request dem_format dem_year tile =
     (if dem_format = ''dgm'' \<or> dem_format = ''dom'' then
        (if dem_year = ''2010-2013'' then
           Inr (Some (''https://geoportal.geoportal-th.de/hoehendaten/'' @ upper dem_format @ ''/''
                      @ dem_format @ ''_'' @ dem_year @ ''/'' @ dem_format @ ''2_'' @ tile
                      @ ''_1_th_'' @ dem_year @ ''.zip''))
         else if dem_year = ''2014-2019'' \<or> dem_year = ''2020-2025'' then
           Inr (Some (''https://geoportal.geoportal-th.de/hoehendaten/'' @ upper dem_format @ ''/''
                      @ dem_format @ ''_'' @ dem_year @ ''/'' @ dem_format @ ''1_'' @ tile
                      @ ''_1_th_'' @ dem_year @ ''.zip''))
         else Inl UnboundLocalError)
      else Inr None)"

fun dem_download_loop ::
  "env \<Rightarrow> string \<Rightarrow> string \<Rightarrow> string \<Rightarrow> string list \<Rightarrow> string list \<Rightarrow> string list \<Rightarrow> world
     \<Rightarrow> world \<times> (error + (string list \<times> string list))" where
  "dem_download_loop E dem_dir dem_format dem_year [] dem_zip_list dem_unzip_list w =
     (w, Inr (dem_zip_list, dem_unzip_list))"
| "dem_download_loop E dem_dir dem_format dem_year (tile # tiles) dem_zip_list dem_unzip_list w =
     (case dem_request dem_format dem_year tile of
        Inl e \<Rightarrow> (w, Inl e)
      | Inr request \<Rightarrow>
          (let current_dem = join dem_dir (tile @ ''_'' @ dem_format @ dem_year @ ''.zip'');
               zl = dem_zip_list @ [current_dem];
               ul = dem_unzip_list @ map (join dem_dir) (namelist E current_dem)
           in if current_dem \<in> files w then
                dem_download_loop E dem_dir dem_format dem_year tiles zl ul
                  (extract_members dem_dir (namelist E current_dem) w)
              else (case request of
                      None \<Rightarrow> (w, Inl UnboundLocalError)
                    | Some url \<Rightarrow>
                        dem_download_loop E dem_dir dem_format dem_year tiles zl ul
                          (extract_members dem_dir (namelist E current_dem)
                             (http_get_to url current_dem w)))))"

definition dem_download ::
  "env \<Rightarrow> string \<Rightarrow> string list \<Rightarrow> string \<Rightarrow> string \<Rightarrow> world
     \<Rightarrow> world \<times> (error + (string list \<times> string list))" where
  "dem_download E dem_dir tiles dem_format dem_year w =
     dem_download_loop E dem_dir dem_format dem_year tiles [] [] w"

subsection \<open>\<open>op_download\<close>\<close>

definition op_url :: string where
  "op_url = ''https://geoportal.geoportal-th.de/gaialight-th/_apps/dladownload/download.php?type=op&id=''"

fun op_fetch_loop ::
  "env \<Rightarrow> string \<Rightarrow> int list \<Rightarrow> string list \<Rightarrow> string list \<Rightarrow> world
     \<Rightarrow> world \<times> (error + (string list \<times> string list))" where
  "op_fetch_loop E op_dir [] op_zip_list op_unzip_list w = (w, Inr (op_zip_list, op_unzip_list))"
| "op_fetch_loop E op_dir (tile_id # idlist) op_zip_list op_unzip_list w =
     (let current_op = join op_dir (py_str tile_id @ ''.zip'');
          zl = op_zip_list @ [current_op];
          ul = op_unzip_list @ map (join op_dir) (namelist E current_op)
      in if current_op \<in> files w then
           op_fetch_loop E op_dir idlist zl ul (extract_members op_dir (namelist E current_op) w)
         else
           op_fetch_loop E op_dir idlist zl ul
             (extract_members op_dir (namelist E current_op)
                (http_get_to (op_url @ py_str tile_id) current_op w)))"

text \<open>
  \<open>op_download\<close>: the resolver, then the downloads. The caller's \<open>tiles\<close> list after the
  call is the first component of the result.
\<close>

definition op_download ::
  "env \<Rightarrow> string \<Rightarrow> string list \<Rightarrow> int \<Rightarrow> string \<Rightarrow> world
     \<Rightarrow> string list \<times> world \<times> (error + (string list \<times> string list))" where
  "op_download E op_dir tiles year id_file w =
     (case op_resolve (read_csv E id_file) tiles year of
        (tiles', Inl e) \<Rightarrow> (tiles', w, Inl e)
      | (tiles', Inr idlist) \<Rightarrow> (tiles', op_fetch_loop E op_dir idlist [] [] w))"

subsection \<open>\<open>merging_tiles\<close> and \<open>clip_rasters\<close>\<close>

text \<open>
  The two messages about the output EPSG: the entry point's ends in a full stop, the one
  of \<open>merging_tiles\<close> in an exclamation mark.
\<close>

definition epsg_msg :: string where
  "epsg_msg = ''Changing output'' @ [CHR 0x27] @ ''s EPSG not yet possible.''"

definition epsg_msg_merging :: string where
  "epsg_msg_merging = ''Changing output'' @ [CHR 0x27] @ ''s EPSG not yet possible!''"

definition merging_tiles ::
  "string list \<Rightarrow> string \<Rightarrow> string \<Rightarrow> string \<Rightarrow> world \<Rightarrow> world \<times> (error + string list)" where
  "merging_tiles tiles_list tiles_dir out_name epsg w =
     (if epsg \<noteq> ''EPSG: 25832'' then (w, Inl (FunctionalityNotImplemented epsg_msg_merging))
      else (case filter (\<lambda>file. \<not> (endswith file ''tfw'' \<or> endswith file ''meta'')) tiles_list of
              [] \<Rightarrow> (w, Inl IndexError)
            | first # others \<Rightarrow>
                (let vrt = join tiles_dir (out_name @ ''.vrt'');
                     tif = join tiles_dir (out_name @ ''.tif'')
                 in (w\<lparr>files := insert tif (insert vrt (files w))\<rparr>, Inr [vrt, tif]))))"

definition clip_rasters :: "string \<Rightarrow> string \<Rightarrow> world \<Rightarrow> world" where
  "clip_rasters inp outp w = w\<lparr>files := insert outp (files w)\<rparr>"

subsection \<open>Cleanup: \<open>determine_files_to_delete\<close> and \<open>delete_residual_files\<close>\<close>

text \<open>
  \<open>keep_files\<close> is a list of keywords or \<open>None\<close>. The membership test \<open>x in keep_files\<close>
  raises \<open>TypeError\<close> on \<open>None\<close>.
\<close>

definition py_in :: "string \<Rightarrow> string list option \<Rightarrow> error + bool" where
  "py_in x keep_files = (case keep_files of None \<Rightarrow> Inl TypeError | Some ks \<Rightarrow> Inr (x \<in> set ks))"

text \<open>
  The statements of \<open>determine_files_to_delete\<close> in their order: the test for \<open>all\<close>, the
  test \<open>keep_files is None\<close>, and the three tests that add a list each.
\<close>

definition determine_files_to_delete ::
  "string list \<Rightarrow> string list \<Rightarrow> string list \<Rightarrow> string list option \<Rightarrow> error + string list list" where
  "determine_files_to_delete zip_list unzip_list intermediates keep_files =
     (case py_in ''all'' keep_files of
        Inl e \<Rightarrow> Inl e
      | Inr True \<Rightarrow> Inr []
      | Inr False \<Rightarrow>
          if keep_files = None then Inr [zip_list, unzip_list, intermediates]
          else (case py_in ''zip'' keep_files of
                  Inl e \<Rightarrow> Inl e
                | Inr kz \<Rightarrow>
                    (case py_in ''unzipped'' keep_files of
                       Inl e \<Rightarrow> Inl e
                     | Inr ku \<Rightarrow>
                         (case py_in ''intermediate'' keep_files of
                            Inl e \<Rightarrow> Inl e
                          | Inr ki \<Rightarrow>
                              Inr ((if kz then [] else [zip_list])
                                   @ (if ku then [] else [unzip_list])
                                   @ (if ki then [] else [intermediates]))))))"

text \<open>
  The arguments of \<open>delete_residual_files\<close> are paths or lists, nested at will.
  \<open>delete_one\<close> is the call with a single argument: a path is removed if
  \<open>os.path.isfile\<close> holds for it and reported in a warning otherwise, a list is walked.
  With two or more arguments each is handled as a single one; with none, \<open>lists[0]\<close>
  raises \<open>IndexError\<close>. The argument tuple \<open>lists\<close> is called \<open>args\<close> here.
\<close>

datatype pyval = Str string | Lst "pyval list"

fun delete_one :: "pyval \<Rightarrow> world \<Rightarrow> world" where
  "delete_one (Str p) w =
     (if p \<in> files w then w\<lparr>files := files w - {p}\<rparr> else w\<lparr>warnings := warnings w @ [p]\<rparr>)"
| "delete_one (Lst vs) w = fold delete_one vs w"

text \<open>The paths that occur in an argument, at any depth.\<close>

fun paths :: "pyval \<Rightarrow> string set" where
  "paths (Str p) = {p}"
| "paths (Lst vs) = (\<Union>v\<in>set vs. paths v)"

definition delete_residual_files :: "pyval list \<Rightarrow> world \<Rightarrow> world \<times> (error + unit)" where
  "delete_residual_files args w =
     (case args of
        [] \<Rightarrow> (w, Inl IndexError)
      | [v] \<Rightarrow> (delete_one v w, Inr ())
      | _ \<Rightarrow> (fold delete_one args w, Inr ()))"

definition to_pyval :: "string list list \<Rightarrow> pyval" where
  "to_pyval delete_list = Lst (map (\<lambda>a_list. Lst (map Str a_list)) delete_list)"

text \<open>The two cleanup statements that end each branch of the pipeline.\<close>

definition cleanup ::
  "string list \<Rightarrow> string list \<Rightarrow> string list \<Rightarrow> string list option \<Rightarrow> world \<Rightarrow> world \<times> (error + unit)" where
  "cleanup zip_list unzip_list intermediates keep_files w =
     (case determine_files_to_delete zip_list unzip_list intermediates keep_files of
        Inl e \<Rightarrow> (w, Inl e)
      | Inr delete_list \<Rightarrow> delete_residual_files [to_pyval delete_list] w)"

subsection \<open>The entry point \<open>geoportalth_execute\<close>\<close>

record params =
  root :: string
  shapefile :: string
  data_choice :: string
  year :: int
  id_file :: string
  dem_format :: string
  data_dir :: "string option"
  dem_dir :: "string option"
  op_dir :: "string option"
  keep_files :: "string list option"
  out_name :: string
  epsg :: string

text \<open>The body of the \<open>if\<close> for the DEM case and the body of the \<open>elif\<close> for the OP case.\<close>

definition dem_branch :: "env \<Rightarrow> params \<Rightarrow> string \<Rightarrow> string list \<Rightarrow> string \<Rightarrow> world \<Rightarrow> world \<times> (error + unit)" where
  "dem_branch E p ddir tiles dem_year w =
     bindw (dem_download E ddir tiles (dem_format p) dem_year w) (\<lambda>w1 (dem_zip_list, dem_unzip_list).
       bindw (merging_tiles dem_unzip_list ddir (out_name p) (epsg p) w1) (\<lambda>w2 dem_intermediates.
         cleanup dem_zip_list dem_unzip_list dem_intermediates (keep_files p)
           (clip_rasters (join ddir (out_name p @ ''.tif''))
              (join ddir (out_name p @ ''_'' @ dem_format p @ ''_clip.tif'')) w2)))"

definition op_branch :: "env \<Rightarrow> params \<Rightarrow> string \<Rightarrow> string list \<Rightarrow> world \<Rightarrow> world \<times> (error + unit)" where
  "op_branch E p odir tiles w =
     bindw (snd (op_download E odir tiles (year p) (id_file p) w)) (\<lambda>w1 (op_zip_list, op_unzip_list).
       bindw (merging_tiles op_unzip_list odir (out_name p) (epsg p) w1) (\<lambda>w2 op_intermediates.
         cleanup op_zip_list op_unzip_list op_intermediates (keep_files p)
           (clip_rasters (join odir (out_name p @ ''.tif''))
              (join odir (out_name p @ ''OP_clip.tif'')) w2)))"

definition geoportalth_execute :: "env \<Rightarrow> params \<Rightarrow> world \<Rightarrow> world \<times> (error + unit)" where
  "geoportalth_execute E p w =
     (if epsg p \<noteq> ''EPSG: 25832'' then (w, Inl (FunctionalityNotImplemented epsg_msg))
      else if dem_format p = ''las'' then
        (w, Inl (FunctionalityNotImplemented ''Las files not yet supported.''))
      else
        (let ddata = (case data_dir p of None \<Rightarrow> join (root p) ''data'' | Some d \<Rightarrow> d);
             ddir = (case dem_dir p of None \<Rightarrow> join ddata ''dem'' | Some d \<Rightarrow> d);
             odir = (case op_dir p of None \<Rightarrow> join ddata ''op'' | Some d \<Rightarrow> d)
         in case dem_year_func (year p) of
              Inl e \<Rightarrow> (w, Inl e)
            | Inr (request, dem_year) \<Rightarrow>
                (let w1 = tile_grid_download E ddata dem_year request w
                 in case intersection (overlay E (shapefile p) dem_year) dem_year of
                      Inl e \<Rightarrow> (w1, Inl e)
                    | Inr tiles \<Rightarrow>
                        if data_choice p = ''dem'' \<or> data_choice p = ''both'' then
                          dem_branch E p ddir tiles dem_year w1
                        else if data_choice p = ''op'' \<or> data_choice p = ''both'' then
                          op_branch E p odir tiles w1
                        else (w1, Inr ()))))"

section \<open>The ID-table builder \<open>op_tilelist_creator\<close>\<close>

text \<open>
  The IDs for which \<open>op_tilelist_creator\<close> calls \<open>op_tilename_finder\<close>, and so sends a
  \<open>HEAD\<close> request, one list per batch: the outer loop is
  \<open>for current in range(start, end+1, safe_step)\<close> and the batch of \<open>current\<close> is
  \<open>range(current, current + safe_step)\<close>. The requests of a batch are independent of one
  another, so a batch is given as the list of its IDs.
\<close>

definition op_tilelist_creator_batches :: "int \<Rightarrow> int \<Rightarrow> int \<Rightarrow> error + int list list" where
  "op_tilelist_creator_batches start end_id safe_step =
     (case py_range start (end_id + 1) safe_step of
        Inl e \<Rightarrow> Inl e
      | Inr currents \<Rightarrow>
          Inr (map (\<lambda>current. range_up current (current + safe_step) 1) currents))"

section \<open>Lemmas about the built-ins\<close>

lemma digit_char_cases:
  assumes "d < 10"
  shows "d = 0 \<or> d = 1 \<or> d = 2 \<or> d = 3 \<or> d = 4 \<or> d = 5 \<or> d = 6 \<or> d = 7 \<or> d = 8 \<or> d = (9::nat)"
  using assms by arith

lemma is_digit_digit_char: "d < 10 \<Longrightarrow> is_digit (digit_char d)"
  using digit_char_cases [of d] by (auto simp: is_digit_def digit_char_def)

lemma digit_val_digit_char: "d < 10 \<Longrightarrow> digit_val (digit_char d) = d"
  using digit_char_cases [of d] by (auto simp: digit_val_def digit_char_def)

lemma digits_all_digit: "list_all is_digit (digits n)"
proof (induction n rule: digits.induct)
  case (1 n)
  show ?case
  proof (cases "n < 10")
    case True
    then show ?thesis by (simp add: digits.simps [of n] is_digit_digit_char)
  next
    case False
    with 1 show ?thesis by (simp add: digits.simps [of n] is_digit_digit_char)
  qed
qed

lemma digits_nonempty: "digits n \<noteq> []"
  by (simp add: digits.simps [of n])

lemma digits_val_snoc: "digits_val (ds @ [c]) = 10 * digits_val ds + digit_val c"
  by (simp add: digits_val_def)

lemma digits_val_digits: "digits_val (digits n) = n"
proof (induction n rule: digits.induct)
  case (1 n)
  show ?case
  proof (cases "n < 10")
    case True
    then show ?thesis
      by (simp add: digits.simps [of n] digits_val_def digit_val_digit_char)
  next
    case False
    with 1 have "digits_val (digits (n div 10)) = n div 10" by simp
    with False show ?thesis
      by (simp add: digits.simps [of n] digits_val_snoc digit_val_digit_char)
  qed
qed

lemma is_digit_not_space: "is_digit c \<Longrightarrow> \<not> is_space c"
  by (auto simp: is_digit_def is_space_def)

lemma is_digit_not_sign: "is_digit c \<Longrightarrow> c \<noteq> CHR ''-'' \<and> c \<noteq> CHR ''+'' \<and> c \<noteq> CHR ''_''"
  by (auto simp: is_digit_def)

lemma strip_id:
  assumes "s \<noteq> []" "\<not> is_space (hd s)" "\<not> is_space (last s)"
  shows "strip s = s"
proof -
  from assms have a: "dropWhile is_space s = s" by (cases s) auto
  from assms have "rev s \<noteq> []" "\<not> is_space (hd (rev s))" by (auto simp: hd_rev)
  then have "dropWhile is_space (rev s) = rev s" by (cases "rev s") auto
  with a show ?thesis by (simp add: strip_def)
qed

lemma digits_hd: "is_digit (hd (digits n))"
  using digits_all_digit [of n] digits_nonempty [of n]
  by (cases "digits n") auto

lemma digits_last: "is_digit (last (digits n))"
  using digits_all_digit [of n] digits_nonempty [of n]
  by (metis last_in_set list_all_iff)

lemma py_int_digits: "py_int (digits n) = Inr (int n)"
proof -
  have s: "strip (digits n) = digits n"
    by (rule strip_id) (simp_all add: digits_nonempty is_digit_not_space digits_hd digits_last)
  have h: "hd (digits n) \<noteq> CHR ''-''" "hd (digits n) \<noteq> CHR ''+''"
    using is_digit_not_sign [OF digits_hd [of n]] by simp_all
  show ?thesis
    by (simp add: py_int_def s h digits_nonempty digits_all_digit digits_val_digits)
qed

lemma py_int_minus_digits: "0 < n \<Longrightarrow> py_int (CHR ''-'' # digits n) = Inr (- int n)"
proof -
  have "\<not> is_space CHR ''-''" by (simp add: is_space_def)
  then have s: "strip (CHR ''-'' # digits n) = CHR ''-'' # digits n"
    by (intro strip_id) (simp_all add: digits_nonempty is_digit_not_space digits_last)
  show ?thesis
    by (simp add: py_int_def s digits_nonempty digits_all_digit digits_val_digits)
qed

lemma py_int_py_str: "py_int (py_str i) = Inr i"
  by (simp add: py_str_def py_int_digits py_int_minus_digits)

lemma py_str_no_underscore: "CHR ''_'' \<notin> set (py_str i)"
  using digits_all_digit is_digit_not_sign
  by (auto simp: py_str_def list_all_iff)

lemma split_on_no_sep: "sep \<notin> set s \<Longrightarrow> split_on sep s = [s]"
  by (induction s) auto

lemma split_on_one_sep:
  "sep \<notin> set a \<Longrightarrow> sep \<notin> set b \<Longrightarrow> split_on sep (a @ sep # b) = [a, b]"
  by (induction a) (auto simp: split_on_no_sep)

section \<open>Lemmas about the grouping correction\<close>

lemma split_tile_py_str: "split_tile (py_str x @ CHR ''_'' # py_str y) = Inr (x, y)"
  by (simp add: split_tile_def split_on_one_sep py_str_no_underscore py_int_py_str)

lemma correct_tile_cases:
  "correct_tile x y =
     (if odd x \<and> even y then Inr (Some (py_str (x - 1) @ ''_'' @ py_str y))
      else if even x \<and> odd y then Inr (Some (py_str x @ ''_'' @ py_str (y - 1)))
      else if odd x \<and> odd y then Inr (Some (py_str (x - 1) @ ''_'' @ py_str (y - 1)))
      else Inr None)"
  by (auto simp: correct_tile_def and_one_eq odd_iff_mod_2_eq_one even_iff_mod_2_eq_zero)

lemma correct_tile_even:
  assumes "correct_tile x y = Inr (Some n)"
  shows "\<exists>x' y'. n = py_str x' @ CHR ''_'' # py_str y' \<and> even x' \<and> even y'"
proof -
  consider "odd x" "even y" | "even x" "odd y" | "odd x" "odd y" | "even x" "even y"
    by blast
  then show ?thesis
  proof cases
    case 1
    with assms have "n = py_str (x - 1) @ CHR ''_'' # py_str y"
      by (simp add: correct_tile_cases)
    moreover from 1 have "even (x - 1)" by simp
    ultimately show ?thesis using 1 by blast
  next
    case 2
    with assms have "n = py_str x @ CHR ''_'' # py_str (y - 1)"
      by (simp add: correct_tile_cases)
    moreover from 2 have "even (y - 1)" by simp
    ultimately show ?thesis using 2 by blast
  next
    case 3
    with assms have "n = py_str (x - 1) @ CHR ''_'' # py_str (y - 1)"
      by (simp add: correct_tile_cases)
    moreover from 3 have "even (x - 1)" "even (y - 1)" by simp_all
    ultimately show ?thesis by blast
  next
    case 4
    with assms show ?thesis by (simp add: correct_tile_cases)
  qed
qed

lemma correct_tile_None_iff: "correct_tile x y = Inr None \<longleftrightarrow> even x \<and> even y"
  by (auto simp: correct_tile_cases)

lemma correct_tile_not_Inl: "correct_tile x y \<noteq> Inl e"
  by (simp add: correct_tile_cases)

lemma needs_correction_iff:
  "needs_correction t \<longleftrightarrow> (\<exists>x y. split_tile t = Inr (x, y) \<and> \<not> (even x \<and> even y))"
proof (cases "split_tile t")
  case (Inl e)
  then show ?thesis by (simp add: needs_correction_def)
next
  case (Inr p)
  obtain x y where "p = (x, y)" by (cases p)
  with Inr show ?thesis
    by (simp add: needs_correction_def correct_tile_cases)
qed

lemma anchor_needs_correction:
  assumes "needs_correction t"
  shows "\<exists>x y. anchor t = py_str x @ CHR ''_'' # py_str y \<and> even x \<and> even y"
proof -
  from assms obtain x y where t: "split_tile t = Inr (x, y)" and o: "\<not> (even x \<and> even y)"
    unfolding needs_correction_iff by blast
  from o have "\<exists>n. correct_tile x y = Inr (Some n)"
    by (cases "even x"; cases "even y"; simp add: correct_tile_cases)
  then obtain n where c: "correct_tile x y = Inr (Some n)" ..
  with t have "anchor t = n" by (simp add: anchor_def)
  with correct_tile_even [OF c] show ?thesis by simp
qed

lemma needs_correction_anchor:
  assumes "needs_correction t"
  shows "\<not> needs_correction (anchor t)"
proof -
  from anchor_needs_correction [OF assms] obtain x y
    where "anchor t = py_str x @ CHR ''_'' # py_str y" "even x" "even y" by blast
  then show ?thesis
    by (simp add: needs_correction_iff split_tile_py_str)
qed

lemma anchor_fixed:
  assumes "\<not> needs_correction t"
  shows "anchor t = t"
proof (cases "split_tile t")
  case (Inl e)
  then show ?thesis by (simp add: anchor_def)
next
  case (Inr p)
  obtain x y where p: "p = (x, y)" by (cases p)
  with Inr assms have "even x \<and> even y" by (simp add: needs_correction_iff)
  with Inr p show ?thesis by (simp add: anchor_def correct_tile_cases)
qed

lemma parses_iff: "parses t \<longleftrightarrow> (\<exists>x y. split_tile t = Inr (x, y))"
  by (cases "split_tile t") (auto simp: parses_def)

lemma correct_loop_step_keep:
  assumes "split_tile tile = Inr (x, y)" "even x" "even y"
  shows "correct_loop (tile # rest) L = correct_loop rest L"
  using assms by (simp add: correct_tile_cases)

lemma correct_loop_step_fix:
  assumes "needs_correction tile" "tile \<in> set L"
  shows "correct_loop (tile # rest) L =
           correct_loop rest (if anchor tile \<in> set (remove1 tile L) then remove1 tile L
                              else remove1 tile L @ [anchor tile])"
proof -
  from assms(1) obtain x y where t: "split_tile tile = Inr (x, y)" and o: "\<not> (even x \<and> even y)"
    unfolding needs_correction_iff by blast
  from o have "\<exists>n. correct_tile x y = Inr (Some n)"
    by (cases "even x"; cases "even y"; simp add: correct_tile_cases)
  then obtain n where c: "correct_tile x y = Inr (Some n)" ..
  with t have a: "anchor tile = n" by (simp add: anchor_def)
  from t c assms(2) show ?thesis by (simp add: a Let_def)
qed

lemma correct_loop_counts:
  assumes "\<forall>t\<in>set rest. parses t"
    and "\<forall>t. needs_correction t \<longrightarrow> count_list L t = count_list rest t"
  shows "\<exists>ts. correct_loop rest L = (ts, None) \<and> (\<forall>n. count_list ts n = expected_count rest L n)"
  using assms
proof (induction rest arbitrary: L)
  case Nil
  have "count_list L n = expected_count [] L n" for n
  proof (cases "needs_correction n")
    case True
    with Nil show ?thesis by (simp add: expected_count_def)
  next
    case False
    then show ?thesis by (simp add: expected_count_def)
  qed
  then show ?case by simp
next
  case (Cons tile rest)
  from Cons.prems(1) have p: "parses tile" and ps: "\<forall>t\<in>set rest. parses t" by simp_all
  show ?case
  proof (cases "needs_correction tile")
    case False
    from p obtain x y where t: "split_tile tile = Inr (x, y)" unfolding parses_iff by blast
    with False have e: "even x" "even y" by (auto simp: needs_correction_iff)
    have step: "correct_loop (tile # rest) L = correct_loop rest L"
      by (rule correct_loop_step_keep [OF t e])
    from Cons.prems(2) False
    have inv: "\<forall>t. needs_correction t \<longrightarrow> count_list L t = count_list rest t"
      by auto
    from Cons.IH [OF ps inv] obtain ts where
      ts: "correct_loop rest L = (ts, None)" "\<forall>n. count_list ts n = expected_count rest L n"
      by blast
    have "{t \<in> set (tile # rest). needs_correction t} = {t \<in> set rest. needs_correction t}"
      using False by auto
    then have "expected_count (tile # rest) L n = expected_count rest L n" for n
      by (simp add: expected_count_def)
    with ts step show ?thesis by simp
  next
    case True
    let ?a = "anchor tile"
    let ?L1 = "remove1 tile L"
    let ?L2 = "if ?a \<in> set ?L1 then ?L1 else ?L1 @ [?a]"
    from Cons.prems(2) True have "count_list L tile = count_list (tile # rest) tile" by blast
    then have "count_list L tile \<noteq> 0" by simp
    then have mem: "tile \<in> set L" by (simp add: count_list_0_iff)
    have step: "correct_loop (tile # rest) L = correct_loop rest ?L2"
      by (rule correct_loop_step_fix [OF True mem])
    have na: "\<not> needs_correction ?a" by (rule needs_correction_anchor [OF True])
    have inv: "\<forall>t. needs_correction t \<longrightarrow> count_list ?L2 t = count_list rest t"
    proof (intro allI impI)
      fix t assume nt: "needs_correction t"
      with na have "t \<noteq> ?a" by auto
      then have "count_list ?L2 t = count_list ?L1 t"
        by (cases "?a \<in> set ?L1") simp_all
      also have "\<dots> = count_list L t - (if tile = t then 1 else 0)" by simp
      also from Cons.prems(2) nt have "count_list L t = count_list (tile # rest) t" by blast
      finally show "count_list ?L2 t = count_list rest t" by simp
    qed
    from Cons.IH [OF ps inv] obtain ts where
      ts: "correct_loop rest ?L2 = (ts, None)" "\<forall>n. count_list ts n = expected_count rest ?L2 n"
      by blast
    have "expected_count rest ?L2 n = expected_count (tile # rest) L n" for n
    proof (cases "needs_correction n")
      case True
      then show ?thesis by (simp add: expected_count_def)
    next
      case nn: False
      with True have ne: "n \<noteq> tile" "tile \<noteq> n" by auto
      then have c1: "count_list ?L1 n = count_list L n" by simp
      from ne have s1: "n \<in> set ?L1 \<longleftrightarrow> n \<in> set L"
        by (metis c1 count_list_0_iff)
      have img: "anchor ` {t \<in> set (tile # rest). needs_correction t}
                   = insert ?a (anchor ` {t \<in> set rest. needs_correction t})"
        using True by auto
      show ?thesis
      proof (cases "n = ?a")
        case True
        show ?thesis
        proof (cases "?a \<in> set ?L1")
          case in1: True
          with True s1 c1 nn show ?thesis by (simp add: expected_count_def)
        next
          case out1: False
          with True s1 have "n \<notin> set L" by simp
          with out1 True nn img show ?thesis by (simp add: expected_count_def)
        qed
      next
        case False
        then have "n \<in> set ?L2 \<longleftrightarrow> n \<in> set L" using s1 by auto
        moreover from False have "count_list ?L2 n = count_list L n" using c1 by auto
        moreover from False img
        have "n \<in> anchor ` {t \<in> set (tile # rest). needs_correction t}
                \<longleftrightarrow> n \<in> anchor ` {t \<in> set rest. needs_correction t}" by simp
        ultimately show ?thesis using nn unfolding expected_count_def by presburger
      qed
    qed
    with ts step show ?thesis by simp
  qed
qed

lemma correct_loop_init:
  assumes "\<forall>t\<in>set tiles. parses t"
  shows "\<exists>ts. correct_loop tiles tiles = (ts, None)
              \<and> (\<forall>n. count_list ts n = expected_count tiles tiles n)"
  by (rule correct_loop_counts [OF assms]) simp

lemma expected_count_pos_iff:
  "0 < expected_count tiles tiles n \<longleftrightarrow> n \<in> anchor ` set tiles"
proof
  assume pos: "0 < expected_count tiles tiles n"
  then have nn: "\<not> needs_correction n" by (auto simp: expected_count_def split: if_splits)
  show "n \<in> anchor ` set tiles"
  proof (cases "n \<in> set tiles")
    case True
    with nn anchor_fixed [of n] show ?thesis by force
  next
    case False
    with pos nn have "n \<in> anchor ` {t \<in> set tiles. needs_correction t}"
      by (auto simp: expected_count_def split: if_splits)
    then show ?thesis by auto
  qed
next
  assume "n \<in> anchor ` set tiles"
  then obtain t where t: "t \<in> set tiles" "n = anchor t" by auto
  show "0 < expected_count tiles tiles n"
  proof (cases "needs_correction t")
    case True
    then have nn: "\<not> needs_correction n" using t needs_correction_anchor by simp
    from True t have "n \<in> anchor ` {t \<in> set tiles. needs_correction t}" by auto
    moreover have "n \<in> set tiles \<Longrightarrow> 0 < count_list tiles n"
      using count_list_0_iff [of tiles n] by auto
    ultimately show ?thesis using nn
      by (simp add: expected_count_def)
  next
    case False
    with t have "n = t" by (simp add: anchor_fixed)
    moreover have "0 < count_list tiles t"
      using count_list_0_iff [of tiles t] t by auto
    ultimately show ?thesis using False t(1)
      by (simp add: expected_count_def)
  qed
qed

lemma counts_set:
  assumes "\<forall>n. count_list ts n = expected_count tiles tiles n"
  shows "set ts = anchor ` set tiles"
proof -
  have "n \<in> set ts \<longleftrightarrow> n \<in> anchor ` set tiles" for n
  proof -
    have "n \<in> set ts \<longleftrightarrow> 0 < count_list ts n"
      using count_list_0_iff [of ts n] by auto
    with assms expected_count_pos_iff [of tiles n] show ?thesis by simp
  qed
  then show ?thesis by blast
qed

lemma distinct_count_list: "distinct xs \<longleftrightarrow> (\<forall>x. count_list xs x \<le> 1)"
proof (induction xs)
  case Nil
  then show ?case by simp
next
  case (Cons a xs)
  show ?case
  proof
    assume d: "distinct (a # xs)"
    with Cons have "\<forall>x. count_list xs x \<le> 1" by simp
    moreover from d have "count_list xs a = 0" by simp
    ultimately show "\<forall>x. count_list (a # xs) x \<le> 1" by auto
  next
    assume c: "\<forall>x. count_list (a # xs) x \<le> 1"
    then have "count_list (a # xs) a \<le> 1" by blast
    then have "count_list xs a = 0" by simp
    then have "a \<notin> set xs" by (simp add: count_list_0_iff)
    moreover have "\<forall>x. count_list xs x \<le> 1"
    proof
      fix x
      from c have "count_list (a # xs) x \<le> 1" by blast
      then show "count_list xs x \<le> 1" by (simp split: if_splits)
    qed
    ultimately show "distinct (a # xs)" using Cons by simp
  qed
qed

lemma counts_distinct:
  assumes "\<forall>n. count_list ts n = expected_count tiles tiles n" "distinct tiles"
  shows "distinct ts"
proof -
  have "count_list ts n \<le> 1" for n
    using assms distinct_count_list [of tiles] by (simp add: expected_count_def)
  then show ?thesis by (simp add: distinct_count_list)
qed

lemma counts_new_once:
  assumes "\<forall>n. count_list ts n = expected_count tiles tiles n" "n \<in> set ts" "n \<notin> set tiles"
  shows "count_list ts n = 1"
proof -
  from assms(2) have "count_list ts n \<noteq> 0" by (simp add: count_list_0_iff)
  with assms(1,3) show ?thesis by (simp add: expected_count_def split: if_splits)
qed

lemma counts_no_odd:
  assumes "\<forall>n. count_list ts n = expected_count tiles tiles n" "n \<in> set ts"
  shows "\<not> needs_correction n"
proof
  assume "needs_correction n"
  with assms(1) have "count_list ts n = 0" by (simp add: expected_count_def)
  with assms(2) show False by (simp add: count_list_0_iff)
qed

lemma correct_loop_length: "correct_loop rest L = (ts, e) \<Longrightarrow> length ts \<le> length L"
proof (induction rest arbitrary: L)
  case Nil
  then show ?case by simp
next
  case (Cons tile rest)
  show ?case
  proof (cases "split_tile tile")
    case (Inl err)
    with Cons.prems show ?thesis by simp
  next
    case (Inr p)
    obtain x y where p: "p = (x, y)" by (cases p)
    show ?thesis
    proof (cases "correct_tile x y")
      case (Inl err)
      with Inr p Cons.prems show ?thesis by simp
    next
      case c: (Inr r)
      show ?thesis
      proof (cases r)
        case None
        with Inr p c Cons.prems have "correct_loop rest L = (ts, e)" by simp
        then show ?thesis by (rule Cons.IH)
      next
        case (Some new_tile)
        show ?thesis
        proof (cases "tile \<in> set L")
          case False
          with Inr p c Some Cons.prems show ?thesis by simp
        next
          case True
          let ?L1 = "remove1 tile L"
          let ?L2 = "if new_tile \<in> set ?L1 then ?L1 else ?L1 @ [new_tile]"
          from Inr p c Some True Cons.prems have "correct_loop rest ?L2 = (ts, e)"
            by (simp add: Let_def)
          then have "length ts \<le> length ?L2" by (rule Cons.IH)
          also have "length ?L2 \<le> length L"
          proof -
            from True have "0 < length L" by (cases L) auto
            moreover from True have "length ?L1 = length L - 1" by (simp add: length_remove1)
            ultimately show ?thesis by auto
          qed
          finally show ?thesis .
        qed
      qed
    qed
  qed
qed

lemma anchor_split_tile:
  assumes "split_tile t = Inr (x, y)"
  shows "split_tile (anchor t) = Inr (if odd x then x - 1 else x, if odd y then y - 1 else y)"
proof (cases "even x \<and> even y")
  case True
  with assms show ?thesis by (simp add: anchor_def correct_tile_cases)
next
  case False
  with assms show ?thesis
    by (cases "even x"; cases "even y";
        simp add: anchor_def correct_tile_cases split_tile_py_str)
qed

lemma anchor_name:
  assumes "split_tile t = Inr (x, y)"
  shows "anchor t =
           (if odd x \<and> even y then py_str (x - 1) @ ''_'' @ py_str y
            else if even x \<and> odd y then py_str x @ ''_'' @ py_str (y - 1)
            else if odd x \<and> odd y then py_str (x - 1) @ ''_'' @ py_str (y - 1)
            else t)"
  using assms by (simp add: anchor_def correct_tile_cases)

lemma find_ids_acc:
  "find_ids lookup tiles idlist =
     (if \<exists>t\<in>set tiles. first_match lookup t = None then Inl (MissingAerialCoverage missing_msg)
      else Inr (idlist @ map (\<lambda>t. the (first_match lookup t)) tiles))"
proof (induction tiles arbitrary: idlist)
  case Nil
  then show ?case by simp
next
  case (Cons tile tiles)
  show ?case
  proof (cases "filter (\<lambda>r. row_tilename r = tile) lookup")
    case Nil
    then show ?thesis by (simp add: first_match_def)
  next
    case (Cons r rs)
    then have f: "first_match lookup tile = Some (row_id r)" by (simp add: first_match_def)
    from Cons have "find_ids lookup (tile # tiles) idlist = find_ids lookup tiles (idlist @ [row_id r])"
      by simp
    with Cons.IH [of "idlist @ [row_id r]"] f show ?thesis by simp
  qed
qed

section \<open>The vintage selector\<close>

lemma dem_year_func_above_2025:
  "2025 < yr \<Longrightarrow> dem_year_func yr = Inl ValueError"
  by (simp add: dem_year_func_def)

lemma dem_year_func_below_2010:
  "yr < 2010 \<Longrightarrow> dem_year_func yr = Inr (url_2014_2019, ''2014-2019'')"
  by (simp add: dem_year_func_def)

text \<open>
  Claim C4. The claim asks that every year outside 2010..2025 is refused. Above 2025 the
  selector raises (\<open>dem_year_func_above_2025\<close>), but a year below 2010 fails the first
  test and is caught by the second branch \<open>year <= 2019\<close>: the year 2009 is answered
  with the grid of 2014-2019 instead of the \<open>ValueError\<close> whose message announces support
  from 2010 to 2025.
\<close>

theorem dem_year_func_2009_not_refused:
  "dem_year_func 2009 = Inr (url_2014_2019, ''2014-2019'')"
  by (simp add: dem_year_func_def)

text \<open>
  Claim C5. For every year from 2010 to 2013 the selector returns the label 2010-2013
  with that vintage's grid URL, for every year from 2014 to 2019 the label 2014-2019, and
  for every year from 2020 to 2025 the label 2020-2025. The selector is a function of the
  year alone: it reads and writes no state.
\<close>

theorem dem_year_func_ranges:
  "(2010 \<le> y \<and> y \<le> 2013 \<longrightarrow> dem_year_func y = Inr (url_2010_2013, ''2010-2013''))
   \<and> (2014 \<le> y \<and> y \<le> 2019 \<longrightarrow> dem_year_func y = Inr (url_2014_2019, ''2014-2019''))
   \<and> (2020 \<le> y \<and> y \<le> 2025 \<longrightarrow> dem_year_func y = Inr (url_2020_2025, ''2020-2025''))"
  by (simp add: dem_year_func_def)

theorem dem_year_func_ranges_witness:
  "dem_year_func 2012 = Inr (url_2010_2013, ''2010-2013'')
   \<and> dem_year_func 2015 = Inr (url_2014_2019, ''2014-2019'')
   \<and> dem_year_func 2025 = Inr (url_2020_2025, ''2020-2025'')"
  using dem_year_func_ranges [of 2012] dem_year_func_ranges [of 2015]
    dem_year_func_ranges [of 2025]
  by simp

section \<open>The tile-ID resolver\<close>

lemmas py_eval =
  split_tile_def py_int_def strip_def is_space_def is_digit_def digits_val_def digit_val_def
  correct_tile_def py_str_def digits.simps digit_char_def parses_def

lemma op_resolve_after_correction:
  assumes "correction yr tiles = (ts, None)"
  shows "op_resolve table tiles yr = (ts, find_ids (filter (\<lambda>r. row_year r = yr) table) ts [])"
  using assms by (simp add: op_resolve_def)

lemma correction_total:
  assumes "yr \<le> 2018" "\<forall>t\<in>set tiles. parses t"
  shows "\<exists>ts. correction yr tiles = (ts, None)
              \<and> (\<forall>n. count_list ts n = expected_count tiles tiles n)"
  using correct_loop_init [OF assms(2)] assms(1) by (simp add: correction_def)

text \<open>
  Claim C1. For a year up to 2018 and a tile list whose names all read as
  \<open><x>_<y>\<close> with integers x and y, the correction of \<open>op_download\<close> completes, and
  the working list it leaves holds exactly the names the loop body computes for the names
  of the original list: one pass over the snapshot, nothing computed from an already
  corrected name. The body turns a name with coordinates x, y into the name whose
  coordinates are x and y with each odd one decremented by 1 (printed as
  \<open>str(x-1) + "_" + str(y)\<close> when only x is odd, \<open>str(x) + "_" + str(y-1)\<close> when only y
  is odd, \<open>str(x-1) + "_" + str(y-1)\<close> when both are), and leaves a name with two even
  coordinates as it is. The ID lookup then runs over that working list.
\<close>

theorem op_download_grouping_correction:
  assumes "yr \<le> 2018" and "\<forall>t\<in>set tiles. parses t"
  shows "\<exists>ts. correction yr tiles = (ts, None)
           \<and> set ts = anchor ` set tiles
           \<and> op_resolve table tiles yr
               = (ts, find_ids (filter (\<lambda>r. row_year r = yr) table) ts [])
           \<and> (\<forall>t\<in>set tiles. \<forall>x y. split_tile t = Inr (x, y) \<longrightarrow>
                 anchor t =
                   (if odd x \<and> even y then py_str (x - 1) @ ''_'' @ py_str y
                    else if even x \<and> odd y then py_str x @ ''_'' @ py_str (y - 1)
                    else if odd x \<and> odd y then py_str (x - 1) @ ''_'' @ py_str (y - 1)
                    else t)
                 \<and> split_tile (anchor t)
                     = Inr (if odd x then x - 1 else x, if odd y then y - 1 else y))"
proof -
  from correction_total [OF assms] obtain ts where
    ts: "correction yr tiles = (ts, None)"
    and cnt: "\<forall>n. count_list ts n = expected_count tiles tiles n" by blast
  have "set ts = anchor ` set tiles" by (rule counts_set [OF cnt])
  moreover note op_resolve_after_correction [OF ts, of table]
  moreover have "\<forall>t\<in>set tiles. \<forall>x y. split_tile t = Inr (x, y) \<longrightarrow>
                 anchor t =
                   (if odd x \<and> even y then py_str (x - 1) @ ''_'' @ py_str y
                    else if even x \<and> odd y then py_str x @ ''_'' @ py_str (y - 1)
                    else if odd x \<and> odd y then py_str (x - 1) @ ''_'' @ py_str (y - 1)
                    else t)
                 \<and> split_tile (anchor t)
                     = Inr (if odd x then x - 1 else x, if odd y then y - 1 else y)"
    using anchor_name anchor_split_tile by blast
  ultimately show ?thesis using ts by blast
qed

theorem op_download_grouping_correction_witness:
  "correction 2018 [''1_1'', ''0_0'', ''3_4'', ''6_7''] = ([''0_0'', ''2_4'', ''6_6''], None)
   \<and> set [''0_0'', ''2_4'', ''6_6''] = anchor ` set [''1_1'', ''0_0'', ''3_4'', ''6_7'']
   \<and> anchor ''3_4'' = ''2_4'' \<and> anchor ''6_7'' = ''6_6'' \<and> anchor ''1_1'' = ''0_0''
   \<and> anchor ''0_0'' = ''0_0''"
proof -
  have y: "(2018::int) \<le> 2018" by simp
  have p: "\<forall>t\<in>set [''1_1'', ''0_0'', ''3_4'', ''6_7'']. parses t"
    by (simp add: py_eval)
  have e: "correction 2018 [''1_1'', ''0_0'', ''3_4'', ''6_7''] = ([''0_0'', ''2_4'', ''6_6''], None)"
    by (simp add: correction_def py_eval)
  have s: "split_tile ''3_4'' = Inr (3, 4)" "split_tile ''6_7'' = Inr (6, 7)"
    "split_tile ''1_1'' = Inr (1, 1)" "split_tile ''0_0'' = Inr (0, 0)"
    by (simp_all add: py_eval)
  from op_download_grouping_correction [OF y p, of "[]"] obtain ts where
    ts: "correction 2018 [''1_1'', ''0_0'', ''3_4'', ''6_7''] = (ts, None)"
      "set ts = anchor ` set [''1_1'', ''0_0'', ''3_4'', ''6_7'']"
    and a: "\<forall>t\<in>set [''1_1'', ''0_0'', ''3_4'', ''6_7'']. \<forall>x y. split_tile t = Inr (x, y) \<longrightarrow>
                 anchor t =
                   (if odd x \<and> even y then py_str (x - 1) @ ''_'' @ py_str y
                    else if even x \<and> odd y then py_str x @ ''_'' @ py_str (y - 1)
                    else if odd x \<and> odd y then py_str (x - 1) @ ''_'' @ py_str (y - 1)
                    else t)
                 \<and> split_tile (anchor t)
                     = Inr (if odd x then x - 1 else x, if odd y then y - 1 else y)"
    by blast
  from ts e have "set [''0_0'', ''2_4'', ''6_6''] = anchor ` set [''1_1'', ''0_0'', ''3_4'', ''6_7'']"
    by simp
  moreover from a s(1) have "anchor ''3_4'' = ''2_4''"
    by (simp add: py_str_def digits.simps digit_char_def)
  moreover from a s(2) have "anchor ''6_7'' = ''6_6''"
    by (simp add: py_str_def digits.simps digit_char_def)
  moreover from a s(3) have "anchor ''1_1'' = ''0_0''"
    by (simp add: py_str_def digits.simps digit_char_def)
  moreover from a s(4) have "anchor ''0_0'' = ''0_0''"
    by simp
  ultimately show ?thesis using e by blast
qed

lemma find_ids_length:
  assumes "find_ids lookup ts [] = Inr ids"
  shows "length ids = length ts"
  using assms by (simp add: find_ids_acc split: if_splits) auto

lemma shared_anchor_shorter:
  assumes "distinct tiles" "distinct ts" "set ts = anchor ` set tiles"
    and "t \<in> set tiles" "u \<in> set tiles" "t \<noteq> u" "anchor t = anchor u"
  shows "length ts < length tiles"
proof -
  from assms(4-7) have "\<not> inj_on anchor (set tiles)" by (auto simp: inj_on_def)
  then have "card (anchor ` set tiles) \<noteq> card (set tiles)"
    by (simp add: inj_on_iff_eq_card)
  moreover have "card (anchor ` set tiles) \<le> card (set tiles)"
    by (simp add: card_image_le)
  ultimately have "card (anchor ` set tiles) < card (set tiles)" by simp
  with assms(1-3) show ?thesis by (metis distinct_card)
qed

text \<open>
  Claim C2. For a duplicate-free tile list whose names all read as \<open><x>_<y>\<close> and a year
  up to 2018, the correction completes with a working list in which no name occurs twice.
  The name computed for each original tile occurs in it exactly once, however many
  original tiles share it; the list is never longer than the original one, it is
  strictly shorter as soon as two different original tiles share their corrected name, and
  an ID list that the lookup returns has the length of the working list.
\<close>

theorem op_download_correction_distinct:
  assumes "yr \<le> 2018" and "distinct tiles" and "\<forall>t\<in>set tiles. parses t"
  shows "\<exists>ts. correction yr tiles = (ts, None)
           \<and> distinct ts
           \<and> (\<forall>t\<in>set tiles. count_list ts (anchor t) = 1)
           \<and> length ts \<le> length tiles
           \<and> ((\<exists>t\<in>set tiles. \<exists>u\<in>set tiles. t \<noteq> u \<and> anchor t = anchor u)
                \<longrightarrow> length ts < length tiles)
           \<and> (\<forall>table ids. snd (op_resolve table tiles yr) = Inr ids
                \<longrightarrow> length ids = length ts)"
proof -
  from correction_total [OF assms(1,3)] obtain ts where
    ts: "correction yr tiles = (ts, None)"
    and cnt: "\<forall>n. count_list ts n = expected_count tiles tiles n" by blast
  have d: "distinct ts" by (rule counts_distinct [OF cnt assms(2)])
  have s: "set ts = anchor ` set tiles" by (rule counts_set [OF cnt])
  have once: "\<forall>t\<in>set tiles. count_list ts (anchor t) = 1"
  proof
    fix t assume "t \<in> set tiles"
    with s have "anchor t \<in> set ts" by simp
    then have "count_list ts (anchor t) \<noteq> 0" by (simp add: count_list_0_iff)
    moreover from d have "count_list ts (anchor t) \<le> 1" by (simp add: distinct_count_list)
    ultimately show "count_list ts (anchor t) = 1" by simp
  qed
  from ts assms(1) have "correct_loop tiles tiles = (ts, None)" by (simp add: correction_def)
  then have len: "length ts \<le> length tiles" by (rule correct_loop_length)
  have short: "(\<exists>t\<in>set tiles. \<exists>u\<in>set tiles. t \<noteq> u \<and> anchor t = anchor u)
                \<longrightarrow> length ts < length tiles"
    using shared_anchor_shorter [OF assms(2) d s] by blast
  have ids: "\<forall>table ids. snd (op_resolve table tiles yr) = Inr ids \<longrightarrow> length ids = length ts"
    using op_resolve_after_correction [OF ts] find_ids_length by simp
  from ts d once len short ids show ?thesis by blast
qed

theorem op_download_correction_distinct_witness:
  "correction 2018 [''1_1'', ''0_0''] = ([''0_0''], None)
   \<and> distinct [''0_0'']
   \<and> count_list [''0_0''] (anchor ''1_1'') = 1
   \<and> count_list [''0_0''] (anchor ''0_0'') = 1
   \<and> length [''0_0''] < length [''1_1'', ''0_0'']"
proof -
  have y: "(2018::int) \<le> 2018" by simp
  have d: "distinct [''1_1'', ''0_0'']" by simp
  have p: "\<forall>t\<in>set [''1_1'', ''0_0'']. parses t" by (simp add: py_eval)
  have e: "correction 2018 [''1_1'', ''0_0''] = ([''0_0''], None)"
    by (simp add: correction_def py_eval)
  from op_download_correction_distinct [OF y d p] e
  have "distinct [''0_0'']"
    and "\<forall>t\<in>set [''1_1'', ''0_0'']. count_list [''0_0''] (anchor t) = 1"
    and "length [''0_0''] \<le> length [''1_1'', ''0_0'']"
    by auto
  with e show ?thesis by simp
qed

lemma counts_kept:
  assumes "\<forall>n. count_list ts n = expected_count tiles tiles n"
    and "n \<in> set tiles" and "\<not> needs_correction n"
  shows "count_list ts n = count_list tiles n"
  using assms by (simp add: expected_count_def)

lemma split_tile_separator_byte: "split_tile (''3_4'' @ [CHR 0x1F]) = Inl ValueError"
  by (simp add: py_eval)

lemma correction_separator_byte:
  "correction 2018 [''3_4'' @ [CHR 0x1F], ''1_1'']
     = ([''3_4'' @ [CHR 0x1F], ''1_1''], Some ValueError)"
  by (simp add: correction_def py_eval)

text \<open>
  Claim C9, as the code has it. \<open>op_download\<close> changes the caller's \<open>tiles\<close> list in
  place. For a year up to 2018 and a list whose names all read as \<open><x>_<y>\<close>, the list the
  caller holds after the call is the working list of the correction, whatever the lookup
  table is and so also when the call raises the missing-coverage error. It holds exactly
  the corrected names of the original tiles, none of them in need of correction. A name
  that was not in the original list occurs in it exactly once; a name of the original list
  that needs no correction occurs as often as it did there, so the list has no name twice
  when the original list had none twice, and keeps the duplicates of such names otherwise.
  For a year after 2018 the caller's list is the one that was passed.
\<close>

theorem op_download_mutates_tiles:
  "(yr \<le> 2018 \<and> (\<forall>t\<in>set tiles. parses t) \<longrightarrow>
      (\<exists>ts. correction yr tiles = (ts, None)
         \<and> (\<forall>E odir idf w. fst (op_download E odir tiles yr idf w) = ts)
         \<and> (\<forall>table. op_resolve table tiles yr
               = (ts, find_ids (filter (\<lambda>r. row_year r = yr) table) ts []))
         \<and> set ts = anchor ` set tiles
         \<and> (\<forall>n\<in>set ts. \<not> needs_correction n)
         \<and> (\<forall>n\<in>set ts. n \<notin> set tiles \<longrightarrow> count_list ts n = 1)
         \<and> (\<forall>n\<in>set tiles. \<not> needs_correction n \<longrightarrow> count_list ts n = count_list tiles n)
         \<and> (distinct tiles \<longrightarrow> distinct ts)))
   \<and> (2018 < yr \<longrightarrow> fst (op_download E odir tiles yr idf w) = tiles)"
proof (intro conjI impI)
  assume a: "yr \<le> 2018 \<and> (\<forall>t\<in>set tiles. parses t)"
  then have y: "yr \<le> 2018" and p: "\<forall>t\<in>set tiles. parses t" by simp_all
  from correction_total [OF y p] obtain ts where
    ts: "correction yr tiles = (ts, None)"
    and cnt: "\<forall>n. count_list ts n = expected_count tiles tiles n" by blast
  have r: "\<forall>table. op_resolve table tiles yr
               = (ts, find_ids (filter (\<lambda>r. row_year r = yr) table) ts [])"
    using op_resolve_after_correction [OF ts] by blast
  have dl: "\<forall>E odir idf w. fst (op_download E odir tiles yr idf w) = ts"
    using r by (simp add: op_download_def split: sum.splits prod.splits)
  have s: "set ts = anchor ` set tiles" by (rule counts_set [OF cnt])
  have no: "\<forall>n\<in>set ts. \<not> needs_correction n" using counts_no_odd [OF cnt] by blast
  have new: "\<forall>n\<in>set ts. n \<notin> set tiles \<longrightarrow> count_list ts n = 1"
    using counts_new_once [OF cnt] by blast
  have kept: "\<forall>n\<in>set tiles. \<not> needs_correction n \<longrightarrow> count_list ts n = count_list tiles n"
    using counts_kept [OF cnt] by blast
  have d: "distinct tiles \<longrightarrow> distinct ts" using counts_distinct [OF cnt] by blast
  show "\<exists>ts. correction yr tiles = (ts, None)
         \<and> (\<forall>E odir idf w. fst (op_download E odir tiles yr idf w) = ts)
         \<and> (\<forall>table. op_resolve table tiles yr
               = (ts, find_ids (filter (\<lambda>r. row_year r = yr) table) ts []))
         \<and> set ts = anchor ` set tiles
         \<and> (\<forall>n\<in>set ts. \<not> needs_correction n)
         \<and> (\<forall>n\<in>set ts. n \<notin> set tiles \<longrightarrow> count_list ts n = 1)
         \<and> (\<forall>n\<in>set tiles. \<not> needs_correction n \<longrightarrow> count_list ts n = count_list tiles n)
         \<and> (distinct tiles \<longrightarrow> distinct ts)"
  proof (intro exI conjI)
    show "correction yr tiles = (ts, None)" by (fact ts)
    show "\<forall>E odir idf w. fst (op_download E odir tiles yr idf w) = ts" by (fact dl)
    show "\<forall>table. op_resolve table tiles yr
               = (ts, find_ids (filter (\<lambda>r. row_year r = yr) table) ts [])" by (fact r)
    show "set ts = anchor ` set tiles" by (fact s)
    show "\<forall>n\<in>set ts. \<not> needs_correction n" by (fact no)
    show "\<forall>n\<in>set ts. n \<notin> set tiles \<longrightarrow> count_list ts n = 1" by (fact new)
    show "\<forall>n\<in>set tiles. \<not> needs_correction n \<longrightarrow> count_list ts n = count_list tiles n"
      by (fact kept)
    show "distinct tiles \<longrightarrow> distinct ts" by (fact d)
  qed
next
  assume "2018 < yr"
  then show "fst (op_download E odir tiles yr idf w) = tiles"
    by (simp add: op_download_def op_resolve_def correction_def split: sum.splits prod.splits)
qed

theorem op_download_mutates_tiles_witness:
  "op_resolve [] [''1_1'', ''0_0'', ''3_4''] 2018
     = ([''0_0'', ''2_4''], Inl (MissingAerialCoverage missing_msg))
   \<and> fst (op_download \<lparr>namelist = (\<lambda>a. []), overlay = (\<lambda>s v. []), read_csv = (\<lambda>f. [])\<rparr>
            ''op'' [''1_1'', ''0_0'', ''3_4''] 2018 ''idlist.txt''
            \<lparr>files = {}, requests = [], warnings = []\<rparr>) = [''0_0'', ''2_4'']
   \<and> fst (op_download \<lparr>namelist = (\<lambda>a. []), overlay = (\<lambda>s v. []), read_csv = (\<lambda>f. [])\<rparr>
            ''op'' [''1_1'', ''0_0'', ''3_4''] 2019 ''idlist.txt''
            \<lparr>files = {}, requests = [], warnings = []\<rparr>) = [''1_1'', ''0_0'', ''3_4'']"
proof -
  let ?E = "\<lparr>namelist = (\<lambda>a. []), overlay = (\<lambda>s v. []), read_csv = (\<lambda>f. [])\<rparr>"
  let ?w = "\<lparr>files = {}, requests = [], warnings = []\<rparr>"
  let ?tiles = "[''1_1'', ''0_0'', ''3_4'']"
  have p: "(2018::int) \<le> 2018 \<and> (\<forall>t\<in>set ?tiles. parses t)" by (simp add: py_eval)
  have e: "correction 2018 ?tiles = ([''0_0'', ''2_4''], None)"
    by (simp add: correction_def py_eval)
  have l: "(2018::int) < 2019" by simp
  note th = op_download_mutates_tiles [of 2018 ?tiles]
  note th2 = op_download_mutates_tiles [of 2019 ?tiles ?E "''op''" "''idlist.txt''" ?w]
  from th p e have "fst (op_download ?E ''op'' ?tiles 2018 ''idlist.txt'' ?w) = [''0_0'', ''2_4'']"
    by auto
  moreover from th p e have "op_resolve [] ?tiles 2018
      = ([''0_0'', ''2_4''], find_ids (filter (\<lambda>r. row_year r = 2018) []) [''0_0'', ''2_4''] [])"
    by auto
  then have "op_resolve [] ?tiles 2018 = ([''0_0'', ''2_4''], Inl (MissingAerialCoverage missing_msg))"
    by simp
  moreover from th2 l have "fst (op_download ?E ''op'' ?tiles 2019 ''idlist.txt'' ?w) = ?tiles"
    by blast
  ultimately show ?thesis by blast
qed

text \<open>
  The claim as it was stated asks for deduplicated names after every call. A name with two
  even coordinates that the caller's list holds twice is never removed: after a call with
  the list \<open>["1_1", "0_0", "0_0"]\<close> for the year 2018 the caller holds
  \<open>["0_0", "0_0"]\<close>.
\<close>

theorem op_download_keeps_duplicates:
  "fst (op_resolve [] [''1_1'', ''0_0'', ''0_0''] 2018) = [''0_0'', ''0_0'']
   \<and> \<not> distinct (fst (op_resolve [] [''1_1'', ''0_0'', ''0_0''] 2018))"
  by (simp add: op_resolve_def correction_def py_eval)

text \<open>
  Claim C3, as the code has it. Let \<open>ts\<close> be the working tile list after the correction
  and \<open>lookup\<close> the rows of the table for the requested year. If some tile of \<open>ts\<close> has no
  row in \<open>lookup\<close>, \<open>op_download\<close> raises \<open>MissingAerialCoverage\<close> with the fixed message
  \<open>There are no matching ortophoto tiles in this year.\<close> and no ID list is returned.
  Otherwise the ID list has one entry per tile of \<open>ts\<close>, in the order of \<open>ts\<close>, and the
  entry of a tile is the ID of the first row of \<open>lookup\<close> with that tile name.
\<close>

theorem op_download_lookup:
  assumes "correction yr tiles = (ts, None)"
  shows "(if \<exists>t\<in>set ts. first_match (filter (\<lambda>r. row_year r = yr) table) t = None
          then op_resolve table tiles yr = (ts, Inl (MissingAerialCoverage missing_msg))
          else \<exists>ids. op_resolve table tiles yr = (ts, Inr ids)
                 \<and> length ids = length ts
                 \<and> map Some ids = map (first_match (filter (\<lambda>r. row_year r = yr) table)) ts)"
proof -
  let ?lookup = "filter (\<lambda>r. row_year r = yr) table"
  note r = op_resolve_after_correction [OF assms, of table]
  show ?thesis
  proof (cases "\<exists>t\<in>set ts. first_match ?lookup t = None")
    case True
    then show ?thesis using r by (simp add: find_ids_acc)
  next
    case False
    then have "map Some (map (\<lambda>t. the (first_match ?lookup t)) ts) = map (first_match ?lookup) ts"
      by auto
    with False show ?thesis using r by (simp add: find_ids_acc)
  qed
qed

theorem op_download_lookup_witness:
  "op_resolve [\<lparr>row_id = 7, row_year = 2020, row_tilename = ''2_3''\<rparr>,
               \<lparr>row_id = 8, row_year = 2019, row_tilename = ''4_4''\<rparr>,
               \<lparr>row_id = 9, row_year = 2020, row_tilename = ''4_4''\<rparr>,
               \<lparr>row_id = 10, row_year = 2020, row_tilename = ''4_4''\<rparr>]
              [''4_4'', ''2_3''] 2020 = ([''4_4'', ''2_3''], Inr [9, 7])
   \<and> op_resolve [\<lparr>row_id = 7, row_year = 2020, row_tilename = ''2_3''\<rparr>,
                 \<lparr>row_id = 8, row_year = 2019, row_tilename = ''4_4''\<rparr>]
              [''2_3'', ''4_4''] 2020 = ([''2_3'', ''4_4''], Inl (MissingAerialCoverage missing_msg))"
proof -
  let ?t1 = "[\<lparr>row_id = 7, row_year = 2020, row_tilename = ''2_3''\<rparr>,
               \<lparr>row_id = 8, row_year = 2019, row_tilename = ''4_4''\<rparr>,
               \<lparr>row_id = 9, row_year = 2020, row_tilename = ''4_4''\<rparr>,
               \<lparr>row_id = 10, row_year = 2020, row_tilename = ''4_4''\<rparr>]"
  let ?t2 = "[\<lparr>row_id = 7, row_year = 2020, row_tilename = ''2_3''\<rparr>,
                 \<lparr>row_id = 8, row_year = 2019, row_tilename = ''4_4''\<rparr>]"
  have c1: "correction 2020 [''4_4'', ''2_3''] = ([''4_4'', ''2_3''], None)"
    by (simp add: correction_def)
  have c2: "correction 2020 [''2_3'', ''4_4''] = ([''2_3'', ''4_4''], None)"
    by (simp add: correction_def)
  from op_download_lookup [OF c1, of ?t1]
  have "\<exists>ids. op_resolve ?t1 [''4_4'', ''2_3''] 2020 = ([''4_4'', ''2_3''], Inr ids)
                 \<and> length ids = Suc (Suc 0) \<and> map Some ids = [Some 9, Some 7]"
    by (simp add: first_match_def)
  then have a: "op_resolve ?t1 [''4_4'', ''2_3''] 2020 = ([''4_4'', ''2_3''], Inr [9, 7])"
    by auto
  from op_download_lookup [OF c2, of ?t2]
  have b: "op_resolve ?t2 [''2_3'', ''4_4''] 2020
             = ([''2_3'', ''4_4''], Inl (MissingAerialCoverage missing_msg))"
    by (simp add: first_match_def)
  from a b show ?thesis by blast
qed

text \<open>
  The claim as it was stated asks for an error that names the tile and the year. The
  message of the code does not: for the tile \<open>2_2\<close> and the year 2020 it contains neither.
\<close>

theorem op_download_error_names_nothing:
  "snd (op_resolve [] [''2_2''] 2020) = Inl (MissingAerialCoverage missing_msg)
   \<and> \<not> sublist ''2_2'' missing_msg
   \<and> \<not> sublist ''2020'' missing_msg"
proof -
  have "CHR ''2'' \<notin> set missing_msg" by (simp add: missing_msg_def)
  then have "\<not> sublist ''2_2'' missing_msg" "\<not> sublist ''2020'' missing_msg"
    using set_mono_sublist [of "''2_2''" missing_msg] set_mono_sublist [of "''2020''" missing_msg]
    by auto
  moreover have "snd (op_resolve [] [''2_2''] 2020) = Inl (MissingAerialCoverage missing_msg)"
    by (simp add: op_resolve_def correction_def)
  ultimately show ?thesis by blast
qed

section \<open>Cleanup\<close>

lemma fold_delete_one_files:
  assumes "\<And>v w. v \<in> set vs \<Longrightarrow> files (delete_one v w) = files w - paths v"
  shows "files (fold delete_one vs w) = files w - (\<Union>v\<in>set vs. paths v)"
  using assms
proof (induction vs arbitrary: w)
  case Nil
  then show ?case by simp
next
  case (Cons a vs)
  have "files (fold delete_one vs (delete_one a w)) = files (delete_one a w) - (\<Union>v\<in>set vs. paths v)"
    by (rule Cons.IH) (simp add: Cons.prems)
  also have "files (delete_one a w) = files w - paths a" by (simp add: Cons.prems)
  finally show ?case by auto
qed

lemma delete_one_files: "files (delete_one v w) = files w - paths v"
proof (induction v w rule: delete_one.induct)
  case (1 p w)
  then show ?case by simp
next
  case (2 vs w)
  have "files (fold delete_one vs w) = files w - (\<Union>v\<in>set vs. paths v)"
  proof (rule fold_delete_one_files)
    fix v w' assume "v \<in> set vs"
    then show "files (delete_one v w') = files w' - paths v" using 2 by blast
  qed
  then show ?case by simp
qed

lemma fold_delete_one_requests:
  assumes "\<And>v w. v \<in> set vs \<Longrightarrow> requests (delete_one v w) = requests w"
  shows "requests (fold delete_one vs w) = requests w"
  using assms by (induction vs arbitrary: w) simp_all

lemma delete_one_requests: "requests (delete_one v w) = requests w"
proof (induction v w rule: delete_one.induct)
  case (1 p w)
  then show ?case by simp
next
  case (2 vs w)
  have "requests (fold delete_one vs w) = requests w"
  proof (rule fold_delete_one_requests)
    fix v w' assume "v \<in> set vs"
    then show "requests (delete_one v w') = requests w'" using 2 by blast
  qed
  then show ?case by simp
qed

lemma paths_to_pyval: "paths (to_pyval delete_list) = (\<Union>l\<in>set delete_list. set l)"
  by (simp add: to_pyval_def)

lemma cleanup_keep_zip:
  "\<exists>w'. cleanup zip_list unzip_list intermediates (Some [''zip'']) w = (w', Inr ())
        \<and> files w' = files w - (set unzip_list \<union> set intermediates)"
  by (simp add: cleanup_def determine_files_to_delete_def py_in_def delete_residual_files_def
      delete_one_files paths_to_pyval del: delete_one.simps)

lemma cleanup_keep_all:
  "cleanup zip_list unzip_list intermediates (Some [''all'']) w = (w, Inr ())"
  by (simp add: cleanup_def determine_files_to_delete_def py_in_def delete_residual_files_def
      to_pyval_def)

text \<open>
  Claim C6. With \<open>keep_files=["zip"]\<close> the cleanup removes the unpacked and the
  intermediate files and no other (\<open>cleanup_keep_zip\<close>), and with \<open>keep_files=["all"]\<close>
  it removes nothing (\<open>cleanup_keep_all\<close>). With \<open>keep_files=None\<close>, the default, the
  claim asks for every collected path to be deleted; but \<open>determine_files_to_delete\<close>
  evaluates \<open>"all" in keep_files\<close> before it tests \<open>keep_files is None\<close>, so the call
  raises \<open>TypeError\<close> and nothing is deleted.
\<close>

theorem cleanup_none_raises:
  "determine_files_to_delete zip_list unzip_list intermediates None = Inl TypeError
   \<and> cleanup zip_list unzip_list intermediates None w = (w, Inl TypeError)"
  by (simp add: cleanup_def determine_files_to_delete_def py_in_def)

section \<open>The entry point\<close>

lemma execute_dem:
  "geoportalth_execute E (p\<lparr>data_choice := ''dem''\<rparr>) w =
     (if epsg p \<noteq> ''EPSG: 25832'' then (w, Inl (FunctionalityNotImplemented epsg_msg))
      else if dem_format p = ''las'' then
        (w, Inl (FunctionalityNotImplemented ''Las files not yet supported.''))
      else
        (let ddata = (case data_dir p of None \<Rightarrow> join (root p) ''data'' | Some d \<Rightarrow> d);
             ddir = (case dem_dir p of None \<Rightarrow> join ddata ''dem'' | Some d \<Rightarrow> d)
         in case dem_year_func (year p) of
              Inl e \<Rightarrow> (w, Inl e)
            | Inr (request, dem_year) \<Rightarrow>
                (let w1 = tile_grid_download E ddata dem_year request w
                 in case intersection (overlay E (shapefile p) dem_year) dem_year of
                      Inl e \<Rightarrow> (w1, Inl e)
                    | Inr tiles \<Rightarrow>
                        dem_branch E (p\<lparr>data_choice := ''dem''\<rparr>) ddir tiles dem_year w1)))"
  by (simp add: geoportalth_execute_def Let_def cong: option.case_cong split: sum.splits prod.splits)

lemma execute_op:
  "geoportalth_execute E (p\<lparr>data_choice := ''op''\<rparr>) w =
     (if epsg p \<noteq> ''EPSG: 25832'' then (w, Inl (FunctionalityNotImplemented epsg_msg))
      else if dem_format p = ''las'' then
        (w, Inl (FunctionalityNotImplemented ''Las files not yet supported.''))
      else
        (let ddata = (case data_dir p of None \<Rightarrow> join (root p) ''data'' | Some d \<Rightarrow> d);
             odir = (case op_dir p of None \<Rightarrow> join ddata ''op'' | Some d \<Rightarrow> d)
         in case dem_year_func (year p) of
              Inl e \<Rightarrow> (w, Inl e)
            | Inr (request, dem_year) \<Rightarrow>
                (let w1 = tile_grid_download E ddata dem_year request w
                 in case intersection (overlay E (shapefile p) dem_year) dem_year of
                      Inl e \<Rightarrow> (w1, Inl e)
                    | Inr tiles \<Rightarrow>
                        op_branch E (p\<lparr>data_choice := ''op''\<rparr>) odir tiles w1)))"
  by (simp add: geoportalth_execute_def Let_def cong: option.case_cong split: sum.splits prod.splits)

text \<open>
  Claim C7. The claim asks that \<open>data_choice="both"\<close> runs the DEM branch and the OP
  branch. The OP branch hangs on an \<open>elif\<close> of the DEM test, and \<open>both\<close> satisfies the DEM
  test, so the OP branch is never reached: a run with \<open>both\<close> is, step for step, the run
  with \<open>dem\<close>. The choices \<open>dem\<close> and \<open>op\<close> run their own branch only (\<open>execute_dem\<close>,
  \<open>execute_op\<close>).
\<close>

theorem execute_both_is_dem:
  "geoportalth_execute E (p\<lparr>data_choice := ''both''\<rparr>) w
     = geoportalth_execute E (p\<lparr>data_choice := ''dem''\<rparr>) w"
  by (simp add: geoportalth_execute_def dem_branch_def Let_def cong: option.case_cong
      split: sum.splits prod.splits)

lemma tile_grid_download_requests:
  "requests (tile_grid_download E ddata dem_year request w) =
     requests w @ (if join (join ddata (''Stand_'' @ dem_year)) (''Stand_'' @ dem_year @ ''.zip'')
                        \<in> files w then [] else [request])"
  by (simp add: tile_grid_download_def Let_def extract_members_def http_get_to_def)

lemma dem_year_func_vintage:
  assumes "dem_year_func yr = Inr (request, dem_year)"
  shows "(request, dem_year) = (url_2010_2013, ''2010-2013'')
         \<or> (request, dem_year) = (url_2014_2019, ''2014-2019'')
         \<or> (request, dem_year) = (url_2020_2025, ''2020-2025'')"
  using assms by (auto simp: dem_year_func_def split: if_splits)

lemma intersection_empty:
  assumes "dem_year_func yr = Inr (request, dem_year)"
  shows "intersection [] dem_year = Inl (AreaOutOfBounds area_msg)"
  using dem_year_func_vintage [OF assms] by (auto simp: intersection_def)

text \<open>
  Claim C8. When the overlay of the area of interest with the grid of the selected vintage
  is empty, \<open>intersection\<close> raises \<open>AreaOutOfBounds\<close> and returns no tile list, and a run
  of the entry point that gets as far as the intersection ends with that error in the
  world \<open>tile_grid_download\<close> left: the only request the run can have added is the one for
  the vintage's overview archive, so no DEM or OP tile archive was fetched or written.
\<close>

theorem no_coverage_before_download:
  assumes "epsg p = ''EPSG: 25832''" and "dem_format p \<noteq> ''las''"
    and "dem_year_func (year p) = Inr (request, dem_year)"
    and "overlay E (shapefile p) dem_year = []"
  shows "intersection (overlay E (shapefile p) dem_year) dem_year = Inl (AreaOutOfBounds area_msg)
       \<and> geoportalth_execute E p w
           = (tile_grid_download E (case data_dir p of None \<Rightarrow> join (root p) ''data'' | Some d \<Rightarrow> d)
                dem_year request w,
              Inl (AreaOutOfBounds area_msg))
       \<and> (requests (fst (geoportalth_execute E p w)) = requests w
            \<or> requests (fst (geoportalth_execute E p w)) = requests w @ [request])
       \<and> request \<in> {url_2010_2013, url_2014_2019, url_2020_2025}"
proof -
  have i: "intersection (overlay E (shapefile p) dem_year) dem_year = Inl (AreaOutOfBounds area_msg)"
    using intersection_empty [OF assms(3)] assms(4) by simp
  have e: "geoportalth_execute E p w
           = (tile_grid_download E (case data_dir p of None \<Rightarrow> join (root p) ''data'' | Some d \<Rightarrow> d)
                dem_year request w,
              Inl (AreaOutOfBounds area_msg))"
    using assms(1-3) i by (simp add: geoportalth_execute_def Let_def)
  have r: "requests (fst (geoportalth_execute E p w)) = requests w
            \<or> requests (fst (geoportalth_execute E p w)) = requests w @ [request]"
    unfolding e by (simp add: tile_grid_download_requests)
  have u: "request \<in> {url_2010_2013, url_2014_2019, url_2020_2025}"
    using dem_year_func_vintage [OF assms(3)] by auto
  from i e r u show ?thesis by blast
qed

theorem no_coverage_before_download_witness:
  "geoportalth_execute
      \<lparr>namelist = (\<lambda>a. [''grid.shp'']), overlay = (\<lambda>s v. []), read_csv = (\<lambda>f. [])\<rparr>
      \<lparr>root = ''r'', shapefile = ''aoi.shp'', data_choice = ''both'', year = 2015,
        id_file = ''idlist.txt'', dem_format = ''dgm'', data_dir = None, dem_dir = None,
        op_dir = None, keep_files = Some [''zip''], out_name = ''merged'',
        epsg = ''EPSG: 25832''\<rparr>
      \<lparr>files = {}, requests = [], warnings = []\<rparr>
     = (\<lparr>files = {''r/data/Stand_2014-2019/Stand_2014-2019.zip'',
                   ''r/data/Stand_2014-2019/grid.shp''},
         requests = [url_2014_2019], warnings = []\<rparr>,
        Inl (AreaOutOfBounds area_msg))"
proof -
  let ?E = "\<lparr>namelist = (\<lambda>a. [''grid.shp'']), overlay = (\<lambda>s v. []), read_csv = (\<lambda>f. [])\<rparr>"
  let ?p = "\<lparr>root = ''r'', shapefile = ''aoi.shp'', data_choice = ''both'', year = 2015,
        id_file = ''idlist.txt'', dem_format = ''dgm'', data_dir = None, dem_dir = None,
        op_dir = None, keep_files = Some [''zip''], out_name = ''merged'',
        epsg = ''EPSG: 25832''\<rparr>"
  let ?w = "\<lparr>files = {}, requests = [], warnings = []\<rparr>"
  have a: "epsg ?p = ''EPSG: 25832''" "dem_format ?p \<noteq> ''las''" by simp_all
  have b: "dem_year_func (year ?p) = Inr (url_2014_2019, ''2014-2019'')"
    by (simp add: dem_year_func_def)
  have c: "overlay ?E (shapefile ?p) ''2014-2019'' = []" by simp
  from no_coverage_before_download [OF a b c, of ?w]
  have "geoportalth_execute ?E ?p ?w
          = (tile_grid_download ?E (join ''r'' ''data'') ''2014-2019'' url_2014_2019 ?w,
             Inl (AreaOutOfBounds area_msg))"
    by simp
  then show ?thesis
    by (simp add: tile_grid_download_def Let_def join_def extract_members_def http_get_to_def
        insert_commute)
qed

section \<open>The ID-table builder\<close>

lemma range_up_step1: "range_up a b 1 = [a..b - 1]"
proof (induction a b "1::int" rule: range_up.induct)
  case (1 cur stop)
  show ?case
  proof (cases "cur < stop")
    case True
    with 1 have "range_up (cur + 1) stop 1 = [cur + 1..stop - 1]" by simp
    with True show ?thesis
      by (simp add: range_up.simps [of cur stop 1] upto_rec1 [of cur "stop - 1"])
  next
    case False
    then show ?thesis by (simp add: range_up.simps [of cur stop 1])
  qed
qed

lemma batches_concat:
  assumes "0 < step"
  shows "concat (map (\<lambda>current. [current..current + step - 1]) (range_up cur stop step))
           = [cur..cur + int (length (range_up cur stop step)) * step - 1]"
  using assms
proof (induction cur stop step rule: range_up.induct)
  case (1 cur stop step)
  show ?case
  proof (cases "cur < stop")
    case False
    then show ?thesis by (simp add: range_up.simps [of cur stop step])
  next
    case True
    define rest where "rest = range_up (cur + step) stop step"
    define k where "k = cur + step + int (length rest) * step - 1"
    from True 1 have ih: "concat (map (\<lambda>current. [current..current + step - 1]) rest)
                         = [cur + step..k]"
      by (simp add: rest_def k_def)
    have u: "range_up cur stop step = cur # rest"
      using True 1(2) by (simp add: range_up.simps [of cur stop step] rest_def)
    have nn: "0 \<le> int (length rest) * step" using 1(2) by simp
    have a: "cur \<le> cur + step - 1" using 1(2) by simp
    have b: "cur + step - 1 \<le> k" using nn by (simp add: k_def)
    have "[cur..k] = [cur..cur + step - 1] @ [cur + step - 1 + 1..k]"
      by (rule upto_split2 [OF a b])
    then have sp: "[cur..cur + step - 1] @ [cur + step..k] = [cur..k]" by simp
    have e: "cur + int (length (cur # rest)) * step - 1 = k"
      by (simp add: k_def algebra_simps)
    have "concat (map (\<lambda>current. [current..current + step - 1]) (cur # rest))
            = [cur..cur + step - 1] @ [cur + step..k]"
      by (simp add: ih)
    also note sp
    finally show ?thesis unfolding u e .
  qed
qed

lemma range_up_length:
  assumes "0 < step"
  shows "int (length (range_up cur stop step)) = max 0 ((stop - cur + step - 1) div step)"
  using assms
proof (induction cur stop step rule: range_up.induct)
  case (1 cur stop step)
  show ?case
  proof (cases "cur < stop")
    case False
    then have "stop - cur + step - 1 \<le> step - 1" by simp
    then have "(stop - cur + step - 1) div step \<le> (step - 1) div step"
      using 1(2) by (rule zdiv_mono1)
    moreover have "(step - 1) div step = 0" using 1(2) by (simp add: div_pos_pos_trivial)
    ultimately have "(stop - cur + step - 1) div step \<le> 0" by simp
    with False show ?thesis by (simp add: range_up.simps [of cur stop step])
  next
    case True
    define x where "x = stop - cur - 1"
    have x0: "0 \<le> x" using True by (simp add: x_def)
    from True 1 have "int (length (range_up (cur + step) stop step))
                         = max 0 ((stop - (cur + step) + step - 1) div step)" by simp
    moreover have "stop - (cur + step) + step - 1 = x" by (simp add: x_def)
    ultimately have ih: "int (length (range_up (cur + step) stop step)) = max 0 (x div step)"
      by simp
    have u: "range_up cur stop step = cur # range_up (cur + step) stop step"
      using True 1(2) by (simp add: range_up.simps [of cur stop step])
    have xs: "stop - cur + step - 1 = x + step" by (simp add: x_def)
    have "(x + step) div step = x div step + 1"
      using 1(2) div_add_self2 [of step x] by simp
    then have d: "(stop - cur + step - 1) div step = x div step + 1"
      unfolding xs .
    have "0 \<le> x div step" using x0 1(2) by (simp add: pos_imp_zdiv_nonneg_iff)
    with ih d show ?thesis unfolding u by simp
  qed
qed

lemma range_up_nth:
  assumes "0 < step"
  shows "range_up cur stop step
           = map (\<lambda>k. cur + int k * step) [0..<length (range_up cur stop step)]"
  using assms
proof (induction cur stop step rule: range_up.induct)
  case (1 cur stop step)
  show ?case
  proof (cases "cur < stop")
    case False
    then show ?thesis by (simp add: range_up.simps [of cur stop step])
  next
    case True
    define rest where "rest = range_up (cur + step) stop step"
    from True 1 have ih: "rest = map (\<lambda>k. cur + step + int k * step) [0..<length rest]"
      by (simp add: rest_def)
    have u: "range_up cur stop step = cur # rest"
      using True 1(2) by (simp add: range_up.simps [of cur stop step] rest_def)
    have "map (\<lambda>k. cur + int k * step) [0..<length (cur # rest)]
            = cur # map (\<lambda>k. cur + int (Suc k) * step) [0..<length rest]"
      by (simp add: upt_rec [of 0] map_Suc_upt [symmetric] del: upt_Suc)
    also have "map (\<lambda>k. cur + int (Suc k) * step) [0..<length rest]
                 = map (\<lambda>k. cur + step + int k * step) [0..<length rest]"
      by (simp add: algebra_simps)
    also note ih [symmetric]
    finally show ?thesis unfolding u by simp
  qed
qed

lemma last_batch_arith:
  fixes d step :: int
  assumes "0 \<le> d" "1 \<le> step"
  shows "d \<le> (d div step + 1) * step - 1"
    and "(d + 1) mod step \<noteq> 0 \<Longrightarrow> d < (d div step + 1) * step - 1"
    and "(d + 1) mod step = 0 \<Longrightarrow> (d div step + 1) * step - 1 = d"
proof -
  define q where "q = d div step"
  define r where "r = d mod step"
  have dq: "d = q * step + r" by (simp add: q_def r_def)
  have r: "0 \<le> r" "r < step" using assms(2) by (simp_all add: r_def)
  have e: "(q + 1) * step - 1 = q * step + step - 1" by (simp add: algebra_simps)
  show "d \<le> (d div step + 1) * step - 1"
    using dq r e unfolding q_def [symmetric] by simp
  have m: "(d + 1) mod step = (r + 1) mod step"
    unfolding r_def by (simp add: mod_add_left_eq)
  {
    assume "(d + 1) mod step \<noteq> 0"
    with m have "(r + 1) mod step \<noteq> 0" by simp
    then have "r + 1 \<noteq> step" by auto
    with r have "r < step - 1" by simp
    then show "d < (d div step + 1) * step - 1"
      using dq e unfolding q_def [symmetric] by simp
  }
  {
    assume "(d + 1) mod step = 0"
    with m have z: "(r + 1) mod step = 0" by simp
    have "r + 1 = step"
    proof (rule ccontr)
      assume "r + 1 \<noteq> step"
      with r have "r + 1 < step" by simp
      with r have "(r + 1) mod step = r + 1" by simp
      with z r show False by simp
    qed
    then show "(d div step + 1) * step - 1 = d"
      using dq e unfolding q_def [symmetric] by simp
  }
qed

text \<open>
  Claim C10. For \<open>start <= end\<close> and \<open>safe_step >= 1\<close> the requested IDs are, batch by
  batch, the ranges \<open>range(current, current + safe_step)\<close> for the values \<open>current\<close> of
  \<open>range(start, end+1, safe_step)\<close>: there are \<open>(end - start) div safe_step + 1\<close> batches,
  batch number k holds the IDs from \<open>start + k * safe_step\<close> to
  \<open>start + (k+1) * safe_step - 1\<close>, and together they are the IDs from \<open>start\<close> to
  \<open>start + batches * safe_step - 1\<close> without a gap. That last ID is never below \<open>end\<close>;
  it is \<open>end\<close> itself when \<open>end + 1 - start\<close> is a multiple of \<open>safe_step\<close> and strictly
  greater than \<open>end\<close> otherwise.
\<close>

theorem op_tilelist_creator_requested_ids:
  assumes "start \<le> end_id" and "1 \<le> safe_step"
  shows "\<exists>batches. op_tilelist_creator_batches start end_id safe_step = Inr batches
           \<and> int (length batches) = (end_id - start) div safe_step + 1
           \<and> (\<forall>k<length batches.
                 batches ! k = [start + int k * safe_step..start + int k * safe_step + safe_step - 1])
           \<and> concat batches = [start..start + int (length batches) * safe_step - 1]
           \<and> end_id \<le> last (concat batches)
           \<and> ((end_id + 1 - start) mod safe_step \<noteq> 0 \<longrightarrow> end_id < last (concat batches))
           \<and> ((end_id + 1 - start) mod safe_step = 0 \<longrightarrow> last (concat batches) = end_id)"
proof -
  define currents where "currents = range_up start (end_id + 1) safe_step"
  define batches where "batches = map (\<lambda>current. [current..current + safe_step - 1]) currents"
  define d where "d = end_id - start"
  have pos: "0 < safe_step" using assms(2) by simp
  have d0: "0 \<le> d" using assms(1) by (simp add: d_def)
  have b: "op_tilelist_creator_batches start end_id safe_step = Inr batches"
    using pos
    by (simp add: op_tilelist_creator_batches_def py_range_def range_up_step1 batches_def
        currents_def algebra_simps)
  have x: "end_id + 1 - start + safe_step - 1 = d + safe_step" by (simp add: d_def)
  have dv: "(d + safe_step) div safe_step = d div safe_step + 1"
    using pos div_add_self2 [of safe_step d] by simp
  have nn: "0 \<le> d div safe_step" using d0 pos by (simp add: pos_imp_zdiv_nonneg_iff)
  have "int (length currents) = max 0 ((end_id + 1 - start + safe_step - 1) div safe_step)"
    unfolding currents_def by (rule range_up_length [OF pos])
  then have n: "int (length currents) = d div safe_step + 1"
    unfolding x dv using nn by simp
  then have len: "int (length batches) = (end_id - start) div safe_step + 1"
    by (simp add: batches_def d_def)
  have cur: "currents = map (\<lambda>k. start + int k * safe_step) [0..<length currents]"
    unfolding currents_def by (rule range_up_nth [OF pos])
  have nth: "\<forall>k<length batches.
                 batches ! k = [start + int k * safe_step..start + int k * safe_step + safe_step - 1]"
  proof (intro allI impI)
    fix k assume k: "k < length batches"
    then have kc: "k < length currents" by (simp add: batches_def)
    then have "currents ! k = map (\<lambda>k. start + int k * safe_step) [0..<length currents] ! k"
      using cur by simp
    also have "\<dots> = start + int k * safe_step" using kc by simp
    finally show "batches ! k = [start + int k * safe_step..start + int k * safe_step + safe_step - 1]"
      using kc by (simp add: batches_def)
  qed
  have cc: "concat batches = [start..start + int (length batches) * safe_step - 1]"
    using batches_concat [OF pos, of start "end_id + 1"]
    by (simp add: batches_def currents_def)
  define t where "t = (d div safe_step + 1) * safe_step - 1"
  have lenb: "int (length batches) = d div safe_step + 1" using n by (simp add: batches_def)
  have top: "start + int (length batches) * safe_step - 1 = start + t"
    unfolding lenb t_def by simp
  have ge: "d \<le> t"
    unfolding t_def by (rule last_batch_arith(1) [OF d0 assms(2)])
  have "start \<le> start + t" using d0 ge by simp
  then have "[start..start + t] = [start..start + t - 1] @ [start + t]" by (rule upto_rec2)
  then have "last [start..start + t] = start + t" by (simp only: last_snoc)
  then have lst: "last (concat batches) = start + t"
    unfolding cc top .
  have e1: "end_id \<le> last (concat batches)" using ge lst by (simp add: d_def)
  have dd: "end_id + 1 - start = d + 1" by (simp add: d_def)
  have e2: "(end_id + 1 - start) mod safe_step \<noteq> 0 \<longrightarrow> end_id < last (concat batches)"
  proof
    assume "(end_id + 1 - start) mod safe_step \<noteq> 0"
    then have "(d + 1) mod safe_step \<noteq> 0" unfolding dd .
    then have "d < t" unfolding t_def by (rule last_batch_arith(2) [OF d0 assms(2)])
    then show "end_id < last (concat batches)" unfolding lst by (simp add: d_def)
  qed
  have e3: "(end_id + 1 - start) mod safe_step = 0 \<longrightarrow> last (concat batches) = end_id"
  proof
    assume "(end_id + 1 - start) mod safe_step = 0"
    then have "(d + 1) mod safe_step = 0" unfolding dd .
    then have "t = d" unfolding t_def by (rule last_batch_arith(3) [OF d0 assms(2)])
    then show "last (concat batches) = end_id" unfolding lst by (simp add: d_def)
  qed
  show ?thesis
  proof (intro exI conjI)
    show "op_tilelist_creator_batches start end_id safe_step = Inr batches" by (fact b)
    show "int (length batches) = (end_id - start) div safe_step + 1" by (fact len)
    show "\<forall>k<length batches.
            batches ! k = [start + int k * safe_step..start + int k * safe_step + safe_step - 1]"
      by (fact nth)
    show "concat batches = [start..start + int (length batches) * safe_step - 1]" by (fact cc)
    show "end_id \<le> last (concat batches)" by (fact e1)
    show "(end_id + 1 - start) mod safe_step \<noteq> 0 \<longrightarrow> end_id < last (concat batches)"
      by (fact e2)
    show "(end_id + 1 - start) mod safe_step = 0 \<longrightarrow> last (concat batches) = end_id"
      by (fact e3)
  qed
qed

theorem op_tilelist_creator_requested_ids_witness:
  "op_tilelist_creator_batches 10 14 3 = Inr [[10, 11, 12], [13, 14, 15]]
   \<and> (14 + 1 - 10) mod 3 \<noteq> (0::int)
   \<and> (14::int) < last (concat [[10, 11, 12], [13, 14, 15]])"
proof -
  have a: "(10::int) \<le> 14" "(1::int) \<le> 3" by simp_all
  have e: "op_tilelist_creator_batches 10 14 3 = Inr [[10, 11, 12], [13, 14, 15]]"
    by (simp add: op_tilelist_creator_batches_def py_range_def range_up.simps)
  from op_tilelist_creator_requested_ids [OF a] e
  have "(14 + 1 - 10) mod 3 \<noteq> (0::int) \<longrightarrow> (14::int) < last (concat [[10, 11, 12], [13, 14, 15]])"
    by auto
  with e show ?thesis by simp
qed

end
